theory Spec2Isabelle
  imports Complex_Main "HOL-Library.Word" "HOL-Library.Signed_Division"
begin

section \<open>Data model\<close>

text \<open>
  The coin database maps outpoints to coins.  A \<open>uint256\<close> is a blob of 32 bytes kept in
  memory order (\<open>begin()\<close> points at the first element of the list); a script is a byte
  string; an amount is a signed 64-bit integer.
\<close>

type_synonym byte = "8 word"
type_synonym uint256 = "byte list"
type_synonym CScript = "byte list"
type_synonym CAmount = "64 word"

text \<open>\<open>COutPoint\<close>: the field \<open>n\<close> of the source is called \<open>vout_n\<close> here.\<close>

record COutPoint =
  hash :: uint256
  vout_n :: "32 word"

record CTxOut =
  nValue :: CAmount
  scriptPubKey :: CScript

record Coin =
  out :: CTxOut
  fCoinBase :: bool
  fCoinStake :: bool
  nHeight :: "32 word"

text \<open>
  \<open>CCoinsViewCursor\<close>: the records that remain to be visited, in the database's
  iteration order.  \<open>Valid()\<close> is non-emptiness, \<open>Next()\<close> drops the head.  A record holds
  what \<open>GetKey\<close> and \<open>GetValue\<close> decode from it; \<open>None\<close> is a record whose key
  (respectively value) does not decode, where the getter returns \<open>false\<close>.
\<close>

type_synonym cursor_record = "COutPoint option \<times> Coin option"
type_synonym CCoinsViewCursor = "cursor_record list"

section \<open>FindScriptPubKey\<close>

text \<open>
  The variables \<open>FindScriptPubKey\<close> receives by reference.  \<open>scan_progress\<close> and
  \<open>should_abort\<close> are the process-wide atomics, \<open>count\<close> and \<open>out_results\<close> belong to
  the caller.  \<open>progress_log\<close> is a history variable: every value the call stores into
  \<open>scan_progress\<close>, oldest first.  A status request that runs during the scan reports
  the value stored last.
\<close>

record scan_refs =
  scan_progress :: int
  should_abort :: bool
  count :: "64 word"
  out_results :: "COutPoint \<rightharpoonup> Coin"
  progress_log :: "int list"

text \<open>How a call ends: it returns a boolean, or the interruption callback throws.\<close>

datatype scan_outcome = Returned bool | Interrupted

text \<open>\<open>std::map::emplace\<close>: inserts unless the key is already present.\<close>

definition emplace :: "'k \<Rightarrow> 'v \<Rightarrow> ('k \<rightharpoonup> 'v) \<Rightarrow> ('k \<rightharpoonup> 'v)" where
  "emplace k v m = (case m k of None \<Rightarrow> m(k \<mapsto> v) | Some _ \<Rightarrow> m)"

text \<open>
  \<open>uint32_t high = 0x100 * *key.hash.begin() + *(key.hash.begin() + 1)\<close>: the first two
  bytes of the hash, read as a 16-bit big-endian number (at most 65535, so the 32-bit
  arithmetic cannot wrap).  A \<open>uint256\<close> has 32 bytes, so both reads are in range.
\<close>

definition high_of :: "COutPoint \<Rightarrow> int" where
  "high_of key = 0x100 * uint (hash key ! 0) + uint (hash key ! 1)"

text \<open>
  \<open>(int)(high * 100.0 / 65536.0 + 0.5)\<close>.  For \<open>high < 65536\<close> the product is an integer
  below \<open>2^23\<close>, the quotient and the sum are multiples of \<open>2^-16\<close> below 128, so every
  step is exact in double precision and the real numbers compute what the doubles do; the
  conversion to \<open>int\<close> truncates a non-negative value, which is the floor.
\<close>

definition progress_of :: "int \<Rightarrow> int" where
  "progress_of high = \<lfloor>real_of_int high * 100 / 65536 + 1 / 2\<rfloor>"

text \<open>
  One pass of the loop body on the record at cursor position \<open>i\<close> (the number of records
  already passed).  The result is \<open>Some\<close> outcome when the body leaves the function.

  The environment enters through two oracles indexed by the cursor position:
  \<open>interruption_point i\<close> says that the callback, invoked while record \<open>i\<close> is
  processed, throws; \<open>abort_request i\<close> says that another thread has stored \<open>true\<close>
  into the abort flag before the flag is read while record \<open>i\<close> is processed.  The
  function itself only reads the flag; the model applies the other thread's store at the
  read, so \<open>should_abort\<close> holds the flag as the scan has last seen it.
  The C++ remainder \<open>%\<close> truncates towards zero: \<open>smod\<close> on the signed reading of \<open>count\<close>.
\<close>

definition scan_body ::
  "(nat \<Rightarrow> bool) \<Rightarrow> (nat \<Rightarrow> bool) \<Rightarrow> CScript set \<Rightarrow> nat \<Rightarrow> cursor_record \<Rightarrow> scan_refs
     \<Rightarrow> scan_outcome option \<times> scan_refs" where
  "scan_body interruption_point abort_request needles i r v =
     (case r of
        (Some key, Some coin) \<Rightarrow>
          let v1 = v\<lparr>count := count v + 1\<rparr> in
          if sint (count v1) smod 8192 = 0 \<and> interruption_point i then (Some Interrupted, v1)
          else
            let v2 = (if sint (count v1) smod 8192 = 0
                      then v1\<lparr>should_abort := should_abort v1 \<or> abort_request i\<rparr> else v1) in
            if sint (count v2) smod 8192 = 0 \<and> should_abort v2 then (Some (Returned False), v2)
            else
              let v3 = (if sint (count v2) smod 256 = 0
                        then v2\<lparr>scan_progress := progress_of (high_of key),
                                progress_log := progress_log v2 @ [progress_of (high_of key)]\<rparr>
                        else v2);
                  v4 = (if scriptPubKey (out coin) \<in> needles
                        then v3\<lparr>out_results := emplace key coin (out_results v3)\<rparr> else v3)
              in (None, v4)
      | _ \<Rightarrow> (Some (Returned False), v))"

text \<open>The \<open>while (cursor->Valid())\<close> loop and the two statements after it.\<close>

fun scan_loop ::
  "(nat \<Rightarrow> bool) \<Rightarrow> (nat \<Rightarrow> bool) \<Rightarrow> CScript set \<Rightarrow> nat \<Rightarrow> CCoinsViewCursor \<Rightarrow> scan_refs
     \<Rightarrow> scan_outcome \<times> scan_refs" where
  "scan_loop ip ar needles i [] v =
     (Returned True, v\<lparr>scan_progress := 100, progress_log := progress_log v @ [100]\<rparr>)"
| "scan_loop ip ar needles i (r # cursor) v =
     (case scan_body ip ar needles i r v of
        (Some res, v') \<Rightarrow> (res, v')
      | (None, v') \<Rightarrow> scan_loop ip ar needles (Suc i) cursor v')"

definition FindScriptPubKey ::
  "(nat \<Rightarrow> bool) \<Rightarrow> (nat \<Rightarrow> bool) \<Rightarrow> CScript set \<Rightarrow> CCoinsViewCursor \<Rightarrow> scan_refs
     \<Rightarrow> scan_outcome \<times> scan_refs" where
  "FindScriptPubKey interruption_point abort_request needles cursor v =
     scan_loop interruption_point abort_request needles 0 cursor
       (v\<lparr>scan_progress := 0, count := 0, progress_log := progress_log v @ [0]\<rparr>)"


section \<open>The scan reservation\<close>

text \<open>
  The three process-wide atomics \<open>g_scan_progress\<close>, \<open>g_scan_in_progress\<close> and
  \<open>g_should_abort_scan\<close>.  Static storage is zero-initialised.
\<close>

record scan_globals =
  g_scan_progress :: int
  g_scan_in_progress :: bool
  g_should_abort_scan :: bool

definition initial_globals :: scan_globals where
  "initial_globals = \<lparr>g_scan_progress = 0, g_scan_in_progress = False, g_should_abort_scan = False\<rparr>"

text \<open>
  What a request can throw.  \<open>NonFatalCheckError\<close> is a failed \<open>CHECK_NONFATAL\<close>;
  \<open>Interruption\<close> is whatever the interruption callback throws; \<open>External_error\<close> is an
  exception of a collaborator outside these sources (descriptor expansion, node context
  lookup, file output); the others are the codes of the \<open>JSONRPCError\<close>s thrown here.
\<close>

datatype rpc_error =
    RPC_INVALID_PARAMETER
  | RPC_MISC_ERROR
  | RPC_INTERNAL_ERROR
  | NonFatalCheckError
  | Interruption
  | External_error

text \<open>
  \<open>CoinsViewScanReserver::reserve\<close>.  The reserver object is its field
  \<open>m_could_reserve\<close>.  The result is what the call returns or throws, the field and the
  globals afterwards.  \<open>exchange(true)\<close> stores \<open>true\<close> and yields the old value.
\<close>

definition reserve :: "bool \<Rightarrow> scan_globals \<Rightarrow> (rpc_error + bool) \<times> bool \<times> scan_globals" where
  "reserve m_could_reserve g =
     (if m_could_reserve then (Inl NonFatalCheckError, m_could_reserve, g)
      else
        let old = g_scan_in_progress g;
            g1 = g\<lparr>g_scan_in_progress := True\<rparr>
        in if old then (Inr False, m_could_reserve, g1)
           else if g_scan_progress g1 \<noteq> 0 then (Inl NonFatalCheckError, m_could_reserve, g1)
           else (Inr True, True, g1))"

text \<open>\<open>~CoinsViewScanReserver\<close>, run when the reserver goes out of scope.\<close>

definition release :: "bool \<Rightarrow> scan_globals \<Rightarrow> scan_globals" where
  "release m_could_reserve g =
     (if m_could_reserve then g\<lparr>g_scan_in_progress := False, g_scan_progress := 0\<rparr> else g)"

section \<open>scantxoutset\<close>

record CBlockIndex =
  block_hash :: uint256
  block_height :: int
  nChainTx :: nat

text \<open>
  What the request handler gets from outside these sources: the descriptor expander
  (\<open>EvalDescriptorStringOrObject\<close>, which may throw, and the descriptor text that
  \<open>InferDescriptor\<close> renders for a script), the node context lookups, the cursor and tip
  obtained under \<open>cs_main\<close> (\<open>None\<close> is a null pointer), and the two oracles of the scan.
  \<open>abort_request_late\<close>: an abort request is served after the scan has read the flag for
  the last time and before the reservation is released; the scan does not see it, the
  flag keeps it.
\<close>

record 'obj scan_env =
  EvalDescriptorStringOrObject :: "'obj \<Rightarrow> rpc_error + CScript list"
  InferDescriptor :: "CScript \<Rightarrow> string"
  node_context_found :: bool
  coins_cursor :: "CCoinsViewCursor option"
  chain_tip :: "CBlockIndex option"
  rpc_interruption_point :: "nat \<Rightarrow> bool"
  abort_request :: "nat \<Rightarrow> bool"
  abort_request_late :: bool

text \<open>The request: \<open>params[0]\<close>, and \<open>params[1]\<close> when \<open>params.size()\<close> is at least 2.\<close>

record 'obj scan_request =
  action :: string
  scanobjects :: "'obj list option"

record unspent =
  u_scriptPubKey :: CScript
  u_desc :: string
  u_amount :: CAmount
  u_height :: "32 word"

record scan_result =
  success :: bool
  txouts :: int
  height :: int
  bestblock :: uint256
  unspents :: "COutPoint \<rightharpoonup> unspent"
  total_amount :: CAmount

datatype rpc_reply =
    NullUniValue
  | BoolReply bool
  | ProgressReply int
  | ScanReply scan_result

text \<open>
  The loop over the scan objects: the needle set and the script-to-descriptor map.  Both
  \<open>emplace\<close> calls keep an entry that is already there.
\<close>

fun build_needles ::
  "('obj \<Rightarrow> rpc_error + CScript list) \<Rightarrow> (CScript \<Rightarrow> string) \<Rightarrow> 'obj list
     \<Rightarrow> CScript set \<times> (CScript \<rightharpoonup> string) \<Rightarrow> rpc_error + CScript set \<times> (CScript \<rightharpoonup> string)" where
  "build_needles ev infer [] acc = Inr acc"
| "build_needles ev infer (scanobject # rest) (needles, descriptors) =
     (case ev scanobject of
        Inl e \<Rightarrow> Inl e
      | Inr scripts \<Rightarrow>
          build_needles ev infer rest
            (fold (\<lambda>script (nd, ds). (insert script nd, emplace script (infer script) ds))
               scripts (needles, descriptors)))"

text \<open>
  The loop over the matched coins.  A \<open>std::map\<close> iterates in key order; the sum and the
  entries do not depend on the order, so the reply holds the entries as a map.
  \<open>descriptors[script]\<close> yields the empty string for a missing key.
\<close>

definition render_unspents :: "(CScript \<rightharpoonup> string) \<Rightarrow> (COutPoint \<rightharpoonup> Coin) \<Rightarrow> (COutPoint \<rightharpoonup> unspent)" where
  "render_unspents descriptors coins =
     (\<lambda>outpoint. case coins outpoint of
        None \<Rightarrow> None
      | Some coin \<Rightarrow>
          Some \<lparr>u_scriptPubKey = scriptPubKey (out coin),
                u_desc = (case descriptors (scriptPubKey (out coin)) of Some d \<Rightarrow> d | None \<Rightarrow> []),
                u_amount = nValue (out coin),
                u_height = nHeight coin\<rparr>)"

definition total_in :: "(COutPoint \<rightharpoonup> Coin) \<Rightarrow> CAmount" where
  "total_in coins = (\<Sum>outpoint \<in> dom coins. nValue (out (the (coins outpoint))))"

text \<open>
  The body of the request handler up to the point where the local reserver goes out of
  scope: the reply or exception, the reserver's field and the globals at that point.
\<close>

definition scantxoutset_body ::
  "'obj scan_env \<Rightarrow> 'obj scan_request \<Rightarrow> scan_globals
     \<Rightarrow> (rpc_error + rpc_reply) \<times> bool \<times> scan_globals" where
  "scantxoutset_body env request g =
     (if action request = ''status'' then
        (case reserve False g of
           (Inl e, m, g1) \<Rightarrow> (Inl e, m, g1)
         | (Inr True, m, g1) \<Rightarrow> (Inr NullUniValue, m, g1)
         | (Inr False, m, g1) \<Rightarrow> (Inr (ProgressReply (g_scan_progress g1)), m, g1))
      else if action request = ''abort'' then
        (case reserve False g of
           (Inl e, m, g1) \<Rightarrow> (Inl e, m, g1)
         | (Inr True, m, g1) \<Rightarrow> (Inr (BoolReply False), m, g1)
         | (Inr False, m, g1) \<Rightarrow> (Inr (BoolReply True), m, g1\<lparr>g_should_abort_scan := True\<rparr>))
      else if action request = ''start'' then
        (case reserve False g of
           (Inl e, m, g1) \<Rightarrow> (Inl e, m, g1)
         | (Inr False, m, g1) \<Rightarrow> (Inl RPC_INVALID_PARAMETER, m, g1)
         | (Inr True, m, g1) \<Rightarrow>
             (case scanobjects request of
                None \<Rightarrow> (Inl RPC_MISC_ERROR, m, g1)
              | Some objs \<Rightarrow>
                  (case build_needles (EvalDescriptorStringOrObject env) (InferDescriptor env) objs
                          ({}, Map.empty) of
                     Inl e \<Rightarrow> (Inl e, m, g1)
                   | Inr (needles, descriptors) \<Rightarrow>
                       let g2 = g1\<lparr>g_should_abort_scan := False\<rparr> in
                       if \<not> node_context_found env then (Inl External_error, m, g2)
                       else
                         (case coins_cursor env of
                            None \<Rightarrow> (Inl NonFatalCheckError, m, g2)
                          | Some pcursor \<Rightarrow>
                              (case chain_tip env of
                                 None \<Rightarrow> (Inl NonFatalCheckError, m, g2)
                               | Some tip \<Rightarrow>
                                   (case FindScriptPubKey (rpc_interruption_point env)
                                           (abort_request env) needles pcursor
                                           \<lparr>scan_progress = g_scan_progress g2,
                                            should_abort = g_should_abort_scan g2,
                                            count = 0, out_results = Map.empty,
                                            progress_log = []\<rparr> of
                                      (outcome, v) \<Rightarrow>
                                        let g3 = g2\<lparr>g_scan_progress := scan_progress v,
                                                    g_should_abort_scan :=
                                                      should_abort v \<or> abort_request_late env\<rparr>
                                        in (case outcome of
                                              Interrupted \<Rightarrow> (Inl Interruption, m, g3)
                                            | Returned res \<Rightarrow>
                                                (Inr (ScanReply
                                                   \<lparr>success = res,
                                                    txouts = sint (count v),
                                                    height = block_height tip,
                                                    bestblock = block_hash tip,
                                                    unspents = render_unspents descriptors (out_results v),
                                                    total_amount = total_in (out_results v)\<rparr>),
                                                 m, g3))))))))
      else (Inl RPC_INVALID_PARAMETER, False, g))"

text \<open>The request handler: the body, then the reserver's destructor.\<close>

definition scantxoutset ::
  "'obj scan_env \<Rightarrow> 'obj scan_request \<Rightarrow> scan_globals \<Rightarrow> (rpc_error + rpc_reply) \<times> scan_globals" where
  "scantxoutset env request g =
     (case scantxoutset_body env request g of (reply, m, g') \<Rightarrow> (reply, release m g'))"

section \<open>dumptxoutset and CreateUTXOSnapshot\<close>

text \<open>
  The aggregate statistics that \<open>GetUTXOStats\<close> fills in (only the two fields used here),
  the header of a snapshot, and the reply of the export.
\<close>

record CCoinsStats =
  hashBlock :: uint256
  coins_count :: "64 word"

record SnapshotMetadata =
  m_base_blockhash :: uint256
  m_coins_count :: "64 word"
  m_nchaintx :: nat

record dump_result =
  coins_written :: "64 word"
  base_hash :: uint256
  base_height :: int
  dump_path :: "string option"

text \<open>
  A file is the sequence of objects serialised into it.  The file system maps a path to
  the file there; \<open>fs::exists\<close> is membership in the domain.
\<close>

datatype snapshot_item =
    Metadata_item SnapshotMetadata
  | OutPoint_item COutPoint
  | Coin_item Coin

type_synonym filesystem = "string \<rightharpoonup> snapshot_item list"

text \<open>
  What the export does to the world, in the order it does it: the file operations and the
  steps of the section that holds \<open>cs_main\<close>.
\<close>

datatype effect =
    Fopen string
  | Fwrite string snapshot_item
  | Fclose string
  | Rename string string
  | Lock_cs_main
  | ForceFlushStateToDisk
  | GetUTXOStats
  | Cursor
  | LookupBlockIndex
  | Unlock_cs_main

text \<open>
  \<open>fopen(p, "wb")\<close> creates the file or truncates it; a write appends; \<open>fs::rename\<close> moves
  the file and replaces what was at the target.
\<close>

fun apply_effect :: "filesystem \<Rightarrow> effect \<Rightarrow> filesystem" where
  "apply_effect fs (Fopen p) = fs(p \<mapsto> [])"
| "apply_effect fs (Fwrite p x) = (case fs p of None \<Rightarrow> fs | Some content \<Rightarrow> fs(p \<mapsto> content @ [x]))"
| "apply_effect fs (Rename a b) = (case fs a of None \<Rightarrow> fs | Some content \<Rightarrow> (fs(a := None))(b \<mapsto> content))"
| "apply_effect fs _ = fs"

definition fs_after :: "filesystem \<Rightarrow> effect list \<Rightarrow> filesystem" where
  "fs_after fs effects = foldl apply_effect fs effects"

text \<open>
  What the export gets from outside these sources.  \<open>AbsPathJoin\<close> is
  \<open>fsbridge::AbsPathJoin(gArgs.GetDataDirNet(), _)\<close>.  \<open>fopen_ok\<close>: \<open>fsbridge::fopen\<close> returns a
  file (otherwise a null pointer, and every write through the \<open>CAutoFile\<close> throws).
  \<open>utxo_stats\<close> is the outcome of \<open>GetUTXOStats\<close>: it throws, returns \<open>false\<close> (\<open>None\<close>), or
  returns \<open>true\<close> with the statistics.  \<open>db_cursor\<close> is \<open>CoinsDB().Cursor()\<close>, \<open>block_index\<close>
  is \<open>LookupBlockIndex\<close>.  \<open>interruption i\<close>: the callback throws when invoked at the
  record at position \<open>i\<close>; \<open>write_fails w\<close>: the write after \<open>w\<close> successful ones throws;
  \<open>rename_ok\<close>: \<open>fs::rename\<close> does not throw.
\<close>

record snapshot_env =
  AbsPathJoin :: "string \<Rightarrow> string"
  fopen_ok :: bool
  node_found :: bool
  utxo_stats :: "rpc_error + CCoinsStats option"
  db_cursor :: CCoinsViewCursor
  block_index :: "uint256 \<Rightarrow> CBlockIndex option"
  interruption :: "nat \<Rightarrow> bool"
  write_fails :: "nat \<Rightarrow> bool"
  rename_ok :: bool

text \<open>
  The streaming loop of \<open>CreateUTXOSnapshot\<close>.  \<open>iter\<close> is the \<open>unsigned int\<close> of the source;
  \<open>i\<close> is the position of the record in the cursor and \<open>w\<close> the number of writes done so
  far, for the oracles.  The result is the exception that ends the loop, if any, and the
  writes done.
\<close>

fun write_coins ::
  "(nat \<Rightarrow> bool) \<Rightarrow> (nat \<Rightarrow> bool) \<Rightarrow> string \<Rightarrow> CCoinsViewCursor \<Rightarrow> 32 word \<Rightarrow> nat \<Rightarrow> nat
     \<Rightarrow> rpc_error option \<times> effect list" where
  "write_coins ip fails afile [] iter i w = (None, [])"
| "write_coins ip fails afile (r # cursor) iter i w =
     (if unat iter mod 5000 = 0 \<and> ip i then (Some Interruption, [])
      else
        (case r of
           (Some key, Some coin) \<Rightarrow>
             if fails w then (Some External_error, [])
             else if fails (Suc w) then (Some External_error, [Fwrite afile (OutPoint_item key)])
             else
               (case write_coins ip fails afile cursor (iter + 1) (Suc i) (Suc (Suc w)) of
                  (e, effects) \<Rightarrow>
                    (e, Fwrite afile (OutPoint_item key) # Fwrite afile (Coin_item coin) # effects))
         | _ \<Rightarrow> write_coins ip fails afile cursor (iter + 1) (Suc i) w))"

text \<open>
  \<open>CreateUTXOSnapshot\<close>.  \<open>afile\<close> is the path behind the \<open>CAutoFile\<close>, \<open>None\<close> for a null
  file.  The lock is released when its scope is left, also by an exception.
\<close>

definition CreateUTXOSnapshot ::
  "snapshot_env \<Rightarrow> string option \<Rightarrow> (rpc_error + dump_result) \<times> effect list" where
  "CreateUTXOSnapshot env afile =
     (case utxo_stats env of
        Inl e \<Rightarrow> (Inl e, [Lock_cs_main, ForceFlushStateToDisk, GetUTXOStats, Unlock_cs_main])
      | Inr None \<Rightarrow>
          (Inl RPC_INTERNAL_ERROR, [Lock_cs_main, ForceFlushStateToDisk, GetUTXOStats, Unlock_cs_main])
      | Inr (Some stats) \<Rightarrow>
          (case block_index env (hashBlock stats) of
             None \<Rightarrow>
               (Inl NonFatalCheckError,
                [Lock_cs_main, ForceFlushStateToDisk, GetUTXOStats, Cursor, LookupBlockIndex,
                 Unlock_cs_main])
           | Some tip \<Rightarrow>
               let window = [Lock_cs_main, ForceFlushStateToDisk, GetUTXOStats, Cursor,
                             LookupBlockIndex, Unlock_cs_main];
                   metadata = \<lparr>m_base_blockhash = block_hash tip,
                               m_coins_count = coins_count stats,
                               m_nchaintx = nChainTx tip\<rparr>
               in (case afile of
                     None \<Rightarrow> (Inl External_error, window)
                   | Some file \<Rightarrow>
                       if write_fails env 0 then (Inl External_error, window)
                       else
                         (case write_coins (interruption env) (write_fails env) file
                                 (db_cursor env) 0 0 1 of
                            (Some e, writes) \<Rightarrow>
                              (Inl e, window @ Fwrite file (Metadata_item metadata) # writes)
                          | (None, writes) \<Rightarrow>
                              (Inr \<lparr>coins_written = coins_count stats,
                                    base_hash = block_hash tip,
                                    base_height = block_height tip,
                                    dump_path = None\<rparr>,
                               window @ Fwrite file (Metadata_item metadata) # writes
                                 @ [Fclose file])))))"

text \<open>
  \<open>dumptxoutset\<close> with the request parameter \<open>arg\<close>, on the file system \<open>fs\<close>: the reply or
  exception, and the effects in order.  When an exception unwinds, the destructor of the
  \<open>CAutoFile\<close> closes the file; that close changes no file and is not listed.
\<close>

definition dumptxoutset ::
  "snapshot_env \<Rightarrow> filesystem \<Rightarrow> string \<Rightarrow> (rpc_error + dump_result) \<times> effect list" where
  "dumptxoutset env fs arg =
     (let path = AbsPathJoin env arg;
          temppath = AbsPathJoin env (arg @ ''.incomplete'')
      in if fs path \<noteq> None then (Inl RPC_INVALID_PARAMETER, [])
         else
           let opened = (if fopen_ok env then [Fopen temppath] else []);
               afile = (if fopen_ok env then Some temppath else None)
           in if \<not> node_found env then (Inl External_error, opened)
              else
                (case CreateUTXOSnapshot env afile of
                   (Inl e, effects) \<Rightarrow> (Inl e, opened @ effects)
                 | (Inr result, effects) \<Rightarrow>
                     if rename_ok env
                     then (Inr (result\<lparr>dump_path := Some path\<rparr>),
                           opened @ effects @ [Rename temppath path])
                     else (Inl External_error, opened @ effects)))"

text \<open>
  \<open>fsbridge::AbsPathJoin\<close> is not among these sources.  The help text of the request says
  of its argument \<open>path to the output file. If relative, will be prefixed by datadir.\<close>
  A path is absolute when it begins with the separator; an absolute path is taken as it
  is.  \<open>prefixed_by_datadir datadir\<close> is the join that the help text describes.
\<close>

definition is_absolute :: "string \<Rightarrow> bool" where
  "is_absolute p = (case p of [] \<Rightarrow> False | c # rest \<Rightarrow> c = CHR ''/'')"

definition prefixed_by_datadir :: "string \<Rightarrow> string \<Rightarrow> string" where
  "prefixed_by_datadir datadir p = (if is_absolute p then p else datadir @ ''/'' @ p)"

section \<open>Exports at the same time\<close>

text \<open>
  Nothing serialises two exports: the handler takes no reservation, and \<open>cs_main\<close> is held
  only for the flush, the statistics and the cursor.  So the file operations of exports
  that run at once interleave, and what they do depends on what a path names at that
  moment.  The disk is a directory from paths to files and the contents of each file; a
  file is known by a number (its inode), and \<open>next_file\<close> is the first number not yet
  used.  The contents of a file are the objects at its positions, \<open>None\<close> where nothing was
  written (a gap before a write beyond the end); positions count objects.  \<open>file_at\<close> is
  the file a path names, \<open>listing\<close> the view of the disk that \<open>fs::exists\<close> reads.
\<close>

record disk =
  directory :: "string \<rightharpoonup> nat"
  file_contents :: "nat \<Rightarrow> snapshot_item option list"
  next_file :: nat

definition file_at :: "disk \<Rightarrow> string \<Rightarrow> snapshot_item option list option" where
  "file_at d p = map_option (file_contents d) (directory d p)"

definition listing :: "disk \<Rightarrow> filesystem" where
  "listing d p = map_option (\<lambda>i. List.map_filter id (file_contents d i)) (directory d p)"

text \<open>A write at position \<open>pos\<close> replaces the object there or extends the file.\<close>

definition write_at :: "nat \<Rightarrow> 'a \<Rightarrow> 'a option list \<Rightarrow> 'a option list" where
  "write_at pos x xs =
     (if pos < length xs then xs[pos := Some x]
      else xs @ replicate (pos - length xs) None @ [Some x])"

text \<open>
  A thread that serves an export is waiting to begin, or it has made the check of the
  final path and runs the effects that \<open>dumptxoutset\<close> lists, one at a time.  It holds the
  file it has open (the \<open>FILE*\<close> behind the \<open>CAutoFile\<close>), the position of its next write,
  and the effects still to come.
\<close>

datatype export_thread = Waiting | Running "nat option" nat "effect list"

text \<open>
  One effect on the disk.  \<open>fopen(p, "wb")\<close> opens the file that \<open>p\<close> names at this moment
  and truncates it, or creates one; a write goes to the open file at the thread's own
  position, whatever path names that file by now; \<open>fs::rename\<close> makes the target name the
  file of the source and throws (\<open>None\<close>) when the source is gone.  The steps of the
  \<open>cs_main\<close> section do not touch the disk.  A write is taken to reach the file when it
  is made; the buffer of the stream can delay it, to the close of the file at the latest.
\<close>

fun perform :: "effect \<Rightarrow> disk \<times> nat option \<times> nat \<Rightarrow> (disk \<times> nat option \<times> nat) option" where
  "perform (Fopen p) (d, h, pos) =
     (case directory d p of
        Some i \<Rightarrow> Some (d\<lparr>file_contents := (file_contents d)(i := [])\<rparr>, Some i, 0)
      | None \<Rightarrow>
          Some (d\<lparr>directory := (directory d)(p \<mapsto> next_file d),
                  file_contents := (file_contents d)(next_file d := []),
                  next_file := Suc (next_file d)\<rparr>,
                Some (next_file d), 0))"
| "perform (Fwrite p x) (d, h, pos) =
     (case h of
        None \<Rightarrow> Some (d, h, pos)
      | Some i \<Rightarrow>
          Some (d\<lparr>file_contents := (file_contents d)(i := write_at pos x (file_contents d i))\<rparr>,
                h, Suc pos))"
| "perform (Fclose p) (d, h, pos) = Some (d, None, 0)"
| "perform (Rename a b) (d, h, pos) =
     (case directory d a of
        None \<Rightarrow> None
      | Some i \<Rightarrow> Some (d\<lparr>directory := ((directory d)(a := None))(b \<mapsto> i)\<rparr>, h, pos))"
| "perform e s = Some s"

text \<open>
  One access of thread \<open>t\<close>, whose request is \<open>req t\<close> (its environment and its parameter).
  The first access is the check \<open>fs::exists(path)\<close>, which fixes what the request will do;
  each later access is its next effect.  A run is a schedule: the threads in the order in
  which they make their accesses.
\<close>

definition export_step ::
  "(nat \<Rightarrow> snapshot_env \<times> string) \<Rightarrow> disk \<times> (nat \<Rightarrow> export_thread) \<Rightarrow> nat
     \<Rightarrow> disk \<times> (nat \<Rightarrow> export_thread)" where
  "export_step req s t =
     (case s of (d, th) \<Rightarrow>
        (case th t of
           Waiting \<Rightarrow>
             (d, th(t := Running None 0 (snd (dumptxoutset (fst (req t)) (listing d) (snd (req t))))))
         | Running h pos [] \<Rightarrow> (d, th)
         | Running h pos (e # es) \<Rightarrow>
             (case perform e (d, h, pos) of
                None \<Rightarrow> (d, th(t := Running h pos []))
              | Some (d', h', pos') \<Rightarrow> (d', th(t := Running h' pos' es)))))"

definition run_exports ::
  "(nat \<Rightarrow> snapshot_env \<times> string) \<Rightarrow> nat list \<Rightarrow> disk \<times> (nat \<Rightarrow> export_thread)
     \<Rightarrow> disk \<times> (nat \<Rightarrow> export_thread)" where
  "run_exports req schedule s = foldl (export_step req) s schedule"

section \<open>Concurrent requests\<close>

text \<open>
  Several requests run at once, each on its own thread with its own reserver.  The
  atomics are sequentially consistent (the default memory order), so a run is an
  interleaving of the threads' accesses to them.  A thread is in one of these phases:
  \<^item> \<open>Before_reserve\<close>: the reserver is constructed;
  \<^item> \<open>After_exchange\<close>: \<open>exchange(true)\<close> in \<open>reserve\<close> has returned \<open>false\<close>, the check of
    \<open>g_scan_progress\<close> is still to come;
  \<^item> \<open>Reserve_failed\<close>: \<open>exchange(true)\<close> has returned \<open>true\<close>, so \<open>reserve\<close> returns \<open>false\<close>;
  \<^item> \<open>Reserved\<close>: \<open>reserve\<close> has returned \<open>true\<close> and \<open>m_could_reserve\<close> is set;
  \<^item> \<open>Destructor_mid\<close>: the destructor has stored \<open>g_scan_in_progress = false\<close> and not
    yet \<open>g_scan_progress = 0\<close>;
  \<^item> \<open>Finished\<close>: the reserver is destroyed, the request is over.
\<close>

datatype phase =
    Before_reserve
  | After_exchange
  | Reserve_failed
  | Reserved
  | Destructor_mid
  | Finished

datatype request_kind = Status | Abort | Start

text \<open>
  One access of thread \<open>t\<close> to the atomics.  \<open>kind t\<close> is the action of its request.  While a
  start request holds the reservation, its body clears the abort flag and stores progress
  values; a request that leaves, by return or by exception, runs the destructor.
\<close>

inductive step ::
  "(nat \<Rightarrow> request_kind) \<Rightarrow> nat \<Rightarrow> scan_globals \<times> (nat \<Rightarrow> phase) \<Rightarrow> scan_globals \<times> (nat \<Rightarrow> phase) \<Rightarrow> bool"
  for kind :: "nat \<Rightarrow> request_kind" and t :: nat where
  exchange_false:
    "ph t = Before_reserve \<Longrightarrow> \<not> g_scan_in_progress g \<Longrightarrow>
       step kind t (g, ph) (g\<lparr>g_scan_in_progress := True\<rparr>, ph(t := After_exchange))"
| exchange_true:
    "ph t = Before_reserve \<Longrightarrow> g_scan_in_progress g \<Longrightarrow>
       step kind t (g, ph) (g\<lparr>g_scan_in_progress := True\<rparr>, ph(t := Reserve_failed))"
| check_passes:
    "ph t = After_exchange \<Longrightarrow> g_scan_progress g = 0 \<Longrightarrow>
       step kind t (g, ph) (g, ph(t := Reserved))"
| check_throws:
    "ph t = After_exchange \<Longrightarrow> g_scan_progress g \<noteq> 0 \<Longrightarrow>
       step kind t (g, ph) (g, ph(t := Finished))"
| status_reads_progress:
    "ph t = Reserve_failed \<Longrightarrow> kind t = Status \<Longrightarrow>
       step kind t (g, ph) (g, ph(t := Finished))"
| abort_sets_flag:
    "ph t = Reserve_failed \<Longrightarrow> kind t = Abort \<Longrightarrow>
       step kind t (g, ph) (g\<lparr>g_should_abort_scan := True\<rparr>, ph(t := Finished))"
| start_throws_busy:
    "ph t = Reserve_failed \<Longrightarrow> kind t = Start \<Longrightarrow>
       step kind t (g, ph) (g, ph(t := Finished))"
| scan_clears_flag:
    "ph t = Reserved \<Longrightarrow> kind t = Start \<Longrightarrow>
       step kind t (g, ph) (g\<lparr>g_should_abort_scan := False\<rparr>, ph)"
| scan_stores_progress:
    "ph t = Reserved \<Longrightarrow> kind t = Start \<Longrightarrow>
       step kind t (g, ph) (g\<lparr>g_scan_progress := p\<rparr>, ph)"
| destructor_first:
    "ph t = Reserved \<Longrightarrow>
       step kind t (g, ph) (g\<lparr>g_scan_in_progress := False\<rparr>, ph(t := Destructor_mid))"
| destructor_second:
    "ph t = Destructor_mid \<Longrightarrow>
       step kind t (g, ph) (g\<lparr>g_scan_progress := 0\<rparr>, ph(t := Finished))"

code_pred step .



section \<open>Notions used in the statements\<close>

text \<open>A cursor all of whose records decode: the records of the store, in order.\<close>

definition cursor_of :: "(COutPoint \<times> Coin) list \<Rightarrow> CCoinsViewCursor" where
  "cursor_of recs = map (\<lambda>(key, coin). (Some key, Some coin)) recs"

text \<open>The matches among \<open>recs\<close>, added to \<open>m\<close> the way the loop adds them.\<close>

definition collect_matches :: "CScript set \<Rightarrow> (COutPoint \<times> Coin) list \<Rightarrow> (COutPoint \<rightharpoonup> Coin) \<Rightarrow> (COutPoint \<rightharpoonup> Coin)" where
  "collect_matches needles recs m =
     fold (\<lambda>(key, coin) m. if scriptPubKey (out coin) \<in> needles then emplace key coin m else m) recs m"

text \<open>No scan holds the reservation and the progress is reset.\<close>

definition idle :: "scan_globals \<Rightarrow> bool" where
  "idle g = (\<not> g_scan_in_progress g \<and> g_scan_progress g = 0)"

text \<open>
  The scan stops at position \<open>j\<close>: the record there is the 8192nd since the last check,
  and the callback throws or the abort flag (set before, or requested now) is set.
\<close>

definition stops :: "(nat \<Rightarrow> bool) \<Rightarrow> (nat \<Rightarrow> bool) \<Rightarrow> bool \<Rightarrow> nat \<Rightarrow> bool" where
  "stops ip ar flag j = (Suc j mod 8192 = 0 \<and> (ip j \<or> flag \<or> ar j))"

text \<open>
  The order of the coin database, which is not part of these sources: keys are compared
  bytewise, and the 32 bytes of the hash lead the key.  \<open>bytes_le\<close> is that comparison
  (\<open>memcmp\<close> on unsigned bytes); \<open>keys_of\<close> are the keys a cursor decodes, in order; an
  ordered cursor yields well-formed hashes in non-decreasing order.
\<close>

fun bytes_le :: "byte list \<Rightarrow> byte list \<Rightarrow> bool" where
  "bytes_le [] ys = True"
| "bytes_le (x # xs) [] = False"
| "bytes_le (x # xs) (y # ys) = (x < y \<or> (x = y \<and> bytes_le xs ys))"

definition keys_of :: "CCoinsViewCursor \<Rightarrow> COutPoint list" where
  "keys_of cursor = List.map_filter fst cursor"

definition cursor_ordered :: "CCoinsViewCursor \<Rightarrow> bool" where
  "cursor_ordered cursor =
     (sorted_wrt (\<lambda>a b. bytes_le (hash a) (hash b)) (keys_of cursor)
      \<and> list_all (\<lambda>k. length (hash k) = 32) (keys_of cursor))"

text \<open>
  The history of \<open>scan_progress\<close> is in order: it never decreases, stays within 0 and 100,
  and its last entry is the current value.
\<close>

definition log_ok :: "scan_refs \<Rightarrow> bool" where
  "log_ok v = (sorted (progress_log v) \<and> list_all (\<lambda>x. 0 \<le> x \<and> x \<le> 100) (progress_log v)
     \<and> progress_log v \<noteq> [] \<and> scan_progress v = last (progress_log v))"

text \<open>
  The values a scan that passes the records \<open>recs\<close>, the first of them at position \<open>i\<close>,
  stores into \<open>scan_progress\<close> on the way: one for every record whose count is a
  multiple of 256.
\<close>

fun progress_samples :: "nat \<Rightarrow> (COutPoint \<times> Coin) list \<Rightarrow> int list" where
  "progress_samples i [] = []"
| "progress_samples i ((key, coin) # recs) =
     (if Suc i mod 256 = 0 then [progress_of (high_of key)] else []) @ progress_samples (Suc i) recs"

text \<open>
  The records of a cursor that decode, the objects a snapshot holds for a list of records,
  and the complete snapshot file of an environment: the header built from the statistics
  and the tip, then every record of the cursor that decodes.
\<close>

fun decodable :: "CCoinsViewCursor \<Rightarrow> (COutPoint \<times> Coin) list" where
  "decodable [] = []"
| "decodable ((Some key, Some coin) # cursor) = (key, coin) # decodable cursor"
| "decodable (r # cursor) = decodable cursor"

definition snapshot_body :: "(COutPoint \<times> Coin) list \<Rightarrow> snapshot_item list" where
  "snapshot_body recs = concat (map (\<lambda>(key, coin). [OutPoint_item key, Coin_item coin]) recs)"

definition complete_snapshot :: "snapshot_env \<Rightarrow> snapshot_item list option" where
  "complete_snapshot env =
     (case utxo_stats env of
        Inr (Some stats) \<Rightarrow>
          (case block_index env (hashBlock stats) of
             Some tip \<Rightarrow>
               Some (Metadata_item \<lparr>m_base_blockhash = block_hash tip,
                                     m_coins_count = coins_count stats,
                                     m_nchaintx = nChainTx tip\<rparr>
                     # snapshot_body (decodable (db_cursor env)))
           | None \<Rightarrow> None)
      | _ \<Rightarrow> None)"

text \<open>
  An effect that leaves every path but \<open>tmp\<close> alone, and a list of such effects.  A rename
  is not one of them.
\<close>

fun writes_to :: "string \<Rightarrow> effect \<Rightarrow> bool" where
  "writes_to tmp (Fopen p) = (p = tmp)"
| "writes_to tmp (Fwrite p x) = (p = tmp)"
| "writes_to tmp (Fclose p) = (p = tmp)"
| "writes_to tmp (Rename a b) = False"
| "writes_to tmp _ = True"

definition writes_only_to :: "string \<Rightarrow> effect list \<Rightarrow> bool" where
  "writes_only_to tmp effects = list_all (writes_to tmp) effects"

text \<open>The steps of the section that holds \<open>cs_main\<close>, when none of them fails.\<close>

definition coordination_window :: "effect list" where
  "coordination_window =
     [Lock_cs_main, ForceFlushStateToDisk, GetUTXOStats, Cursor, LookupBlockIndex, Unlock_cs_main]"

text \<open>The two paths of an export, and the objects written by a list of effects.\<close>

definition final_path :: "snapshot_env \<Rightarrow> string \<Rightarrow> string" where
  "final_path env arg = AbsPathJoin env arg"

definition temp_path :: "snapshot_env \<Rightarrow> string \<Rightarrow> string" where
  "temp_path env arg = AbsPathJoin env (arg @ ''.incomplete'')"

fun written_items :: "effect list \<Rightarrow> snapshot_item list" where
  "written_items [] = []"
| "written_items (Fwrite p x # effects) = x # written_items effects"
| "written_items (e # effects) = written_items effects"

fun is_coin_item :: "snapshot_item \<Rightarrow> bool" where
  "is_coin_item (Coin_item coin) = True"
| "is_coin_item _ = False"

definition records_written :: "effect list \<Rightarrow> nat" where
  "records_written effects = length (filter is_coin_item (written_items effects))"

text \<open>
  Effects by kind: an effect that touches only the two paths of its export, a rename, an
  effect on a file at all.
\<close>

fun touches_own :: "string \<Rightarrow> string \<Rightarrow> effect \<Rightarrow> bool" where
  "touches_own tmp fin (Fopen p) = (p = tmp)"
| "touches_own tmp fin (Fwrite p x) = (p = tmp)"
| "touches_own tmp fin (Fclose p) = (p = tmp)"
| "touches_own tmp fin (Rename a b) = (a = tmp \<and> b = fin)"
| "touches_own tmp fin e = True"

fun is_rename :: "effect \<Rightarrow> bool" where
  "is_rename (Rename a b) = True"
| "is_rename e = False"

fun file_effect :: "effect \<Rightarrow> bool" where
  "file_effect (Fopen p) = True"
| "file_effect (Fwrite p x) = True"
| "file_effect (Fclose p) = True"
| "file_effect (Rename a b) = True"
| "file_effect e = False"

text \<open>
  A sound disk has no file under two names, and every file it names has a number below
  \<open>next_file\<close>.
\<close>

definition sound_disk :: "disk \<Rightarrow> bool" where
  "sound_disk d =
     ((\<forall>p q i. directory d p = Some i \<and> directory d q = Some i \<longrightarrow> p = q)
      \<and> (\<forall>p i. directory d p = Some i \<longrightarrow> i < next_file d))"

text \<open>
  The two paths of the export of thread \<open>t\<close>.  The export is undisturbed when no other
  thread's export uses one of them.
\<close>

definition own_paths :: "(nat \<Rightarrow> snapshot_env \<times> string) \<Rightarrow> nat \<Rightarrow> string set" where
  "own_paths req t = {temp_path (fst (req t)) (snd (req t)), final_path (fst (req t)) (snd (req t))}"

definition undisturbed :: "(nat \<Rightarrow> snapshot_env \<times> string) \<Rightarrow> nat \<Rightarrow> bool" where
  "undisturbed req t = (\<forall>u. u \<noteq> t \<longrightarrow> own_paths req u \<inter> own_paths req t = {})"

text \<open>
  How far an undisturbed export has come, as the disk shows it (\<open>d0\<close> is the disk at the
  start, \<open>whole\<close> the complete snapshot): it has not begun; or it is one that never renames,
  and the final path holds what it held; or it is still to open the temporary file; or
  it has written the objects \<open>written\<close> of the snapshot to the file that the temporary
  path names; or it has closed that file, which holds the whole snapshot; or it has
  renamed, and the final path names that file.
\<close>

definition export_stage ::
  "string \<Rightarrow> string \<Rightarrow> snapshot_item list option \<Rightarrow> disk \<Rightarrow> disk \<Rightarrow> export_thread \<Rightarrow> bool" where
  "export_stage tmp fin whole d0 d th =
     (case th of
        Waiting \<Rightarrow> file_at d fin = file_at d0 fin
      | Running h pos es \<Rightarrow>
          (file_at d fin = file_at d0 fin \<and> list_all (\<lambda>e. \<not> is_rename e) es
             \<and> (h = None \<or> h \<noteq> directory d fin))
          \<or> (file_at d0 fin = None \<and> directory d fin = None
              \<and> (\<exists>items. whole = Some items
                   \<and> (es = Fopen tmp # coordination_window @ map (Fwrite tmp) items
                             @ [Fclose tmp, Rename tmp fin]
                       \<or> (\<exists>w written rest.
                             items = written @ rest \<and> list_all (\<lambda>e. \<not> file_effect e) w
                             \<and> es = w @ map (Fwrite tmp) rest @ [Fclose tmp, Rename tmp fin]
                             \<and> h \<noteq> None \<and> h = directory d tmp
                             \<and> file_at d tmp = Some (map Some written) \<and> pos = length written)
                       \<or> (es = [Rename tmp fin] \<and> file_at d tmp = Some (map Some items)))))
          \<or> (file_at d0 fin = None \<and> es = [] \<and> whole \<noteq> None
              \<and> file_at d fin = map_option (map Some) whole))"

text \<open>
  What every run keeps: the disk is sound, open files and pending effects are in order, no
  other thread has open a file that one of the paths of thread \<open>t\<close> names, and thread \<open>t\<close>
  is at one of the stages above.
\<close>

definition export_inv ::
  "(nat \<Rightarrow> snapshot_env \<times> string) \<Rightarrow> nat \<Rightarrow> disk \<Rightarrow> disk \<times> (nat \<Rightarrow> export_thread) \<Rightarrow> bool" where
  "export_inv req t d0 s =
     (case s of (d, th) \<Rightarrow>
        sound_disk d
        \<and> (\<forall>u i pos es. th u = Running (Some i) pos es \<longrightarrow> i < next_file d)
        \<and> (\<forall>u h pos es. th u = Running h pos es \<longrightarrow>
              list_all (touches_own (temp_path (fst (req u)) (snd (req u)))
                          (final_path (fst (req u)) (snd (req u)))) es)
        \<and> (\<forall>u i pos es. u \<noteq> t \<and> th u = Running (Some i) pos es \<longrightarrow>
              (\<forall>p \<in> own_paths req t. directory d p \<noteq> Some i))
        \<and> export_stage (temp_path (fst (req t)) (snd (req t))) (final_path (fst (req t)) (snd (req t)))
             (complete_snapshot (fst (req t))) d0 d (th t))"



text \<open>
  A run of the concurrent requests from the state \<open>s\<close>: each entry names the thread that
  makes the next access and the state after it.
\<close>

fun follows ::
  "(nat \<Rightarrow> request_kind) \<Rightarrow> scan_globals \<times> (nat \<Rightarrow> phase)
     \<Rightarrow> (nat \<times> scan_globals \<times> (nat \<Rightarrow> phase)) list \<Rightarrow> bool" where
  "follows kind s [] = True"
| "follows kind s ((t, s') # run) = (step kind t s s' \<and> follows kind s' run)"

section \<open>Concrete inputs\<close>

definition ex_key :: "32 word \<Rightarrow> COutPoint" where
  "ex_key i = \<lparr>hash = replicate 32 0, vout_n = i\<rparr>"

definition ex_coin :: "CScript \<Rightarrow> Coin" where
  "ex_coin script = \<lparr>out = \<lparr>nValue = 5, scriptPubKey = script\<rparr>, fCoinBase = False,
     fCoinStake = False, nHeight = 7\<rparr>"

definition ex_recs :: "(COutPoint \<times> Coin) list" where
  "ex_recs = [(ex_key 0, ex_coin [1]), (ex_key 1, ex_coin [2])]"

definition ex_refs :: scan_refs where
  "ex_refs = \<lparr>scan_progress = 0, should_abort = False, count = 0, out_results = Map.empty,
     progress_log = []\<rparr>"

definition ex_tip :: CBlockIndex where
  "ex_tip = \<lparr>block_hash = replicate 32 1, block_height = 10, nChainTx = 20\<rparr>"

definition ex_env :: "CCoinsViewCursor \<Rightarrow> (nat \<Rightarrow> bool) \<Rightarrow> string scan_env" where
  "ex_env cur ar = \<lparr>EvalDescriptorStringOrObject = (\<lambda>d. Inr []), InferDescriptor = (\<lambda>s. ''raw''),
     node_context_found = True, coins_cursor = Some cur, chain_tip = Some ex_tip,
     rpc_interruption_point = (\<lambda>i. False), abort_request = ar,
     abort_request_late = False\<rparr>"

definition ex_start :: "string scan_request" where
  "ex_start = \<lparr>action = ''start'', scanobjects = Some []\<rparr>"

definition ex_store :: "nat \<Rightarrow> (COutPoint \<times> Coin) list" where
  "ex_store n = map (\<lambda>i. (ex_key (of_nat i), ex_coin [1])) [0..<n]"

definition ex_corrupt :: CCoinsViewCursor where
  "ex_corrupt = cursor_of [(ex_key 0, ex_coin [1])] @ (None, Some (ex_coin [2])) # cursor_of [(ex_key 2, ex_coin [1])]"

definition ex_snapshot_env :: "CCoinsViewCursor \<Rightarrow> snapshot_env" where
  "ex_snapshot_env cur =
     \<lparr>AbsPathJoin = (\<lambda>p. ''/data/'' @ p), fopen_ok = True, node_found = True,
      utxo_stats = Inr (Some \<lparr>hashBlock = replicate 32 1, coins_count = 5\<rparr>),
      db_cursor = cur, block_index = (\<lambda>h. Some ex_tip),
      interruption = (\<lambda>i. False), write_fails = (\<lambda>w. False), rename_ok = True\<rparr>"

definition ex_one :: CCoinsViewCursor where
  "ex_one = [(Some (ex_key 0), Some (ex_coin [1])), (None, Some (ex_coin [2]))]"

definition ex_metadata :: SnapshotMetadata where
  "ex_metadata = \<lparr>m_base_blockhash = replicate 32 1, m_coins_count = 5, m_nchaintx = 20\<rparr>"


definition ex_single :: CCoinsViewCursor where
  "ex_single = [(Some (ex_key 0), Some (ex_coin [1]))]"

text \<open>
  A store of 455 records: 255 whose hash begins with the byte 0, then 200 whose hash
  begins with the byte \<open>0x80\<close>.  The 256th record is the first of the latter.
\<close>

definition ex_half :: "(COutPoint \<times> Coin) list" where
  "ex_half = ex_store 255
     @ map (\<lambda>i. (\<lparr>hash = 128 # replicate 31 0, vout_n = of_nat i\<rparr>, ex_coin [1])) [0..<200]"

text \<open>
  Four requests at once: thread 1 starts a scan, the others ask for the status.  A state of
  the four is written with the progress, the \<open>g_scan_in_progress\<close> flag and the phases of
  threads 0 to 3.  In the run \<open>ex_race\<close> the status request of thread 0 arrives while no
  scan runs, so it takes the reservation, and its destructor is between its two stores
  while thread 1 reserves, scans and stores the progress 50; threads 2 and 3 read the
  progress before and after the destructor's second store.
\<close>

definition ex_race_kind :: "nat \<Rightarrow> request_kind" where
  "ex_race_kind t = (if t = 1 then Start else Status)"

definition race_state ::
  "int \<Rightarrow> bool \<Rightarrow> phase \<Rightarrow> phase \<Rightarrow> phase \<Rightarrow> phase \<Rightarrow> scan_globals \<times> (nat \<Rightarrow> phase)" where
  "race_state progress busy p0 p1 p2 p3 =
     (\<lparr>g_scan_progress = progress, g_scan_in_progress = busy, g_should_abort_scan = False\<rparr>,
      (\<lambda>t. Before_reserve)(0 := p0, 1 := p1, 2 := p2, 3 := p3))"

definition ex_race :: "(nat \<times> scan_globals \<times> (nat \<Rightarrow> phase)) list" where
  "ex_race =
     [(0, race_state 0 True After_exchange Before_reserve Before_reserve Before_reserve),
      (0, race_state 0 True Reserved Before_reserve Before_reserve Before_reserve),
      (0, race_state 0 False Destructor_mid Before_reserve Before_reserve Before_reserve),
      (1, race_state 0 True Destructor_mid After_exchange Before_reserve Before_reserve),
      (1, race_state 0 True Destructor_mid Reserved Before_reserve Before_reserve),
      (1, race_state 0 True Destructor_mid Reserved Before_reserve Before_reserve),
      (1, race_state 0 True Destructor_mid Reserved Before_reserve Before_reserve),
      (1, race_state 50 True Destructor_mid Reserved Before_reserve Before_reserve),
      (2, race_state 50 True Destructor_mid Reserved Reserve_failed Before_reserve),
      (2, race_state 50 True Destructor_mid Reserved Finished Before_reserve),
      (0, race_state 0 True Finished Reserved Finished Before_reserve),
      (3, race_state 0 True Finished Reserved Finished Reserve_failed),
      (3, race_state 0 True Finished Reserved Finished Finished)]"

text \<open>
  Exports at once.  \<open>ex_export_env\<close> joins paths the way the help text says.  In
  \<open>ex_same_path\<close> thread 0 exports a store of one coin and every other thread exports,
  to the same path, the store as it is later: no coin, and statistics that count none.
  In \<open>ex_apart env\<close> thread 0 exports in the environment \<open>env\<close> and the other threads
  export to another path.
\<close>

definition empty_disk :: disk where
  "empty_disk = \<lparr>directory = Map.empty, file_contents = (\<lambda>i. []), next_file = 0\<rparr>"

definition ex_export_env :: "CCoinsViewCursor \<Rightarrow> snapshot_env" where
  "ex_export_env cur = (ex_snapshot_env cur)\<lparr>AbsPathJoin := prefixed_by_datadir ''/data''\<rparr>"

definition ex_later_env :: snapshot_env where
  "ex_later_env =
     (ex_export_env [])\<lparr>utxo_stats := Inr (Some \<lparr>hashBlock = replicate 32 1, coins_count = 0\<rparr>)\<rparr>"

definition ex_same_path :: "nat \<Rightarrow> snapshot_env \<times> string" where
  "ex_same_path t =
     (if t = 0 then (ex_export_env ex_single, ''utxo.dat'') else (ex_later_env, ''utxo.dat''))"

definition ex_apart :: "snapshot_env \<Rightarrow> nat \<Rightarrow> snapshot_env \<times> string" where
  "ex_apart env t = (if t = 0 then (env, ''utxo.dat'') else (ex_later_env, ''/tmp/other.dat''))"

section \<open>Arithmetic of the counters\<close>

lemma smod_zero_iff_dvd: "((a::int) smod b = 0) = (b dvd a)"
proof -
  have "(a smod b = 0) = (sgn a = 0 \<or> \<bar>a\<bar> mod \<bar>b\<bar> = 0)"
    by (simp add: smod_int_alt_def)
  also have "\<dots> = (\<bar>b\<bar> dvd \<bar>a\<bar>)"
    by (auto simp only: mod_eq_0_iff_dvd sgn_0_0 abs_zero dvd_0_right)
  also have "\<dots> = (b dvd a)"
    by simp
  finally show ?thesis .
qed

lemma sint_eq_uint_minus:
  fixes w :: "64 word"
  shows "sint w = uint w - 2 ^ 64 * of_bool (bit (uint w) 63)"
  by (simp add: sint_uint signed_take_bit_eq_take_bit_minus take_bit_int_eq_self uint_lt2p [of w, simplified])

lemma sint_dvd_iff:
  fixes w :: "64 word"
  assumes "(d::int) dvd 2 ^ 64"
  shows "(d dvd sint w) = (d dvd uint w)"
proof -
  have "d dvd 2 ^ 64 * of_bool (bit (uint w) 63)"
    using assms by (rule dvd_mult2)
  then show ?thesis
    unfolding sint_eq_uint_minus by (simp add: dvd_diff_left_iff)
qed

lemma pow2_dvd_int: "k \<le> 64 \<Longrightarrow> (2::int) ^ k dvd 2 ^ 64"
  by (rule le_imp_power_dvd)

lemma pow2_dvd_nat: "k \<le> 64 \<Longrightarrow> (2::nat) ^ k dvd 2 ^ 64"
  by (rule le_imp_power_dvd)

lemma count_check_pow2:
  fixes w :: "64 word"
  assumes "k \<le> 64"
  shows "(sint w smod 2 ^ k = 0) = (unat w mod 2 ^ k = 0)"
proof -
  have "(sint w smod 2 ^ k = 0) = ((2::int) ^ k dvd uint w)"
    by (simp only: smod_zero_iff_dvd sint_dvd_iff [OF pow2_dvd_int [OF assms]])
  also have "\<dots> = (int (2 ^ k) dvd int (unat w))"
    by simp
  also have "\<dots> = (2 ^ k dvd unat w)"
    by (rule int_dvd_int_iff)
  also have "\<dots> = (unat w mod 2 ^ k = 0)"
    by (rule dvd_eq_mod_eq_0)
  finally show ?thesis .
qed

lemma unat_of_nat_mod_pow2:
  assumes "k \<le> 64"
  shows "unat (of_nat n :: 64 word) mod 2 ^ k = n mod 2 ^ k"
  using pow2_dvd_nat [OF assms] by (simp add: unat_of_nat mod_mod_cancel)

lemma count_check_8192: "(sint (of_nat n :: 64 word) smod 8192 = 0) = (n mod 8192 = 0)"
  using count_check_pow2 [of 13 "of_nat n"] unat_of_nat_mod_pow2 [of 13 n] by simp

lemma count_check_256: "(sint (of_nat n :: 64 word) smod 256 = 0) = (n mod 256 = 0)"
  using count_check_pow2 [of 8 "of_nat n"] unat_of_nat_mod_pow2 [of 8 n] by simp

lemma sint_of_nat_small: "n < 2 ^ 63 \<Longrightarrow> sint (of_nat n :: 64 word) = int n"
  by (simp add: signed_of_nat signed_take_bit_int_eq_self)

lemma progress_of_eq: "progress_of h = (h * 100 + 32768) div 65536"
proof -
  have "real_of_int h * 100 / 65536 + 1 / 2 = real_of_int (h * 100 + 32768) / real_of_int 65536"
    by (simp add: field_simps)
  then show ?thesis
    unfolding progress_of_def by (simp only: floor_divide_of_int_eq)
qed

lemma count_check_8192_Suc: "(sint ((of_nat i :: 64 word) + 1) smod 8192 = 0) = (Suc i mod 8192 = 0)"
  using count_check_8192 [of "Suc i"] by (simp add: add.commute)

lemma count_check_256_Suc: "(sint ((of_nat i :: 64 word) + 1) smod 256 = 0) = (Suc i mod 256 = 0)"
  using count_check_256 [of "Suc i"] by (simp add: add.commute)

lemma next_check_gt: "(i::nat) < (i div 8192 + 1) * 8192"
proof -
  have a: "(i div 8192 + 1) * 8192 = i div 8192 * 8192 + 8192"
    by (simp add: algebra_simps)
  have b: "i div 8192 * 8192 + i mod 8192 = i"
    by (rule div_mult_mod_eq)
  have c: "i mod 8192 < 8192"
    by simp
  show ?thesis
    unfolding a using b c by linarith
qed

lemma next_check_le: "((t::nat) div 8192 + 1) * 8192 \<le> t + 8192"
proof -
  have a: "(t div 8192 + 1) * 8192 = t div 8192 * 8192 + 8192"
    by (simp add: algebra_simps)
  have b: "t div 8192 * 8192 + t mod 8192 = t"
    by (rule div_mult_mod_eq)
  show ?thesis
    unfolding a using b by linarith
qed

lemma progress_of_mono: "a \<le> b \<Longrightarrow> progress_of a \<le> progress_of b"
  unfolding progress_of_eq by (intro zdiv_mono1) simp_all

lemma high_of_range:
  "0 \<le> high_of key" "high_of key \<le> 65535"
proof -
  have "uint (hash key ! 0) \<le> 255" "uint (hash key ! 1) \<le> 255"
    using uint_lt2p [of "hash key ! 0"] uint_lt2p [of "hash key ! 1"] by simp_all
  then show "high_of key \<le> 65535"
    by (simp add: high_of_def)
  show "0 \<le> high_of key"
    by (simp add: high_of_def)
qed

lemma progress_of_range:
  assumes "0 \<le> h" "h \<le> 65535"
  shows "0 \<le> progress_of h" "progress_of h \<le> 100"
proof -
  have "progress_of 0 \<le> progress_of h" "progress_of h \<le> progress_of 65535"
    using assms by (simp_all add: progress_of_mono)
  moreover have "progress_of 0 = 0" "progress_of 65535 = 100"
    by (simp_all add: progress_of_eq)
  ultimately show "0 \<le> progress_of h" "progress_of h \<le> 100"
    by simp_all
qed

lemma high_of_mono:
  assumes "bytes_le (hash a) (hash b)" "length (hash a) = 32" "length (hash b) = 32"
  shows "high_of a \<le> high_of b"
proof -
  obtain a0 a1 as where a: "hash a = a0 # a1 # as"
    using assms(2) by (cases "hash a"; cases "tl (hash a)") auto
  obtain b0 b1 bs where b: "hash b = b0 # b1 # bs"
    using assms(3) by (cases "hash b"; cases "tl (hash b)") auto
  have le: "a0 < b0 \<or> (a0 = b0 \<and> a1 \<le> b1)"
    using assms(1) by (auto simp: a b)
  have "256 * uint a0 + uint a1 \<le> 256 * uint b0 + uint b1"
    using le
  proof
    assume "a0 < b0"
    then have "uint a0 + 1 \<le> uint b0"
      by (simp add: word_less_def)
    moreover have "uint a1 \<le> 255"
      using uint_lt2p [of a1] by simp
    moreover have "0 \<le> uint b1"
      by simp
    ultimately show ?thesis
      by linarith
  next
    assume "a0 = b0 \<and> a1 \<le> b1"
    then show ?thesis
      by (simp add: word_le_def)
  qed
  then show ?thesis
    by (simp add: high_of_def a b)
qed

section \<open>A scan that runs to exhaustion\<close>

text \<open>One pass that neither stops nor fails.\<close>

lemma scan_body_continue:
  assumes "\<not> ip i" "\<not> ar i" "\<not> should_abort v"
  shows "fst (scan_body ip ar nd i (Some key, Some coin) v) = None"
    and "count (snd (scan_body ip ar nd i (Some key, Some coin) v)) = count v + 1"
    and "\<not> should_abort (snd (scan_body ip ar nd i (Some key, Some coin) v))"
    and "out_results (snd (scan_body ip ar nd i (Some key, Some coin) v)) =
           (if scriptPubKey (out coin) \<in> nd then emplace key coin (out_results v) else out_results v)"
  using assms by (simp_all add: scan_body_def Let_def)

lemma scan_loop_exhaust:
  assumes "\<forall>j < length recs. \<not> ip (i + j) \<and> \<not> ar (i + j)" "\<not> should_abort v"
  shows "fst (scan_loop ip ar nd i (cursor_of recs) v) = Returned True
       \<and> count (snd (scan_loop ip ar nd i (cursor_of recs) v)) = count v + of_nat (length recs)
       \<and> out_results (snd (scan_loop ip ar nd i (cursor_of recs) v)) = collect_matches nd recs (out_results v)
       \<and> scan_progress (snd (scan_loop ip ar nd i (cursor_of recs) v)) = 100"
  using assms
proof (induction recs arbitrary: i v)
  case Nil
  then show ?case by (simp add: cursor_of_def collect_matches_def)
next
  case (Cons r recs)
  obtain key coin where r: "r = (key, coin)" by (cases r)
  let ?b = "scan_body ip ar nd i (Some key, Some coin) v"
  have now: "\<not> ip i" "\<not> ar i"
    using Cons.prems(1) by auto
  have later: "\<forall>j < length recs. \<not> ip (Suc i + j) \<and> \<not> ar (Suc i + j)"
    using Cons.prems(1) by fastforce
  note b = scan_body_continue [where ip = ip and ar = ar and i = i and v = v and nd = nd
      and key = key and coin = coin, OF now Cons.prems(2)]
  obtain v' where sb: "?b = (None, v')"
    using b(1) by (cases ?b) auto
  have v': "count v' = count v + 1" "\<not> should_abort v'"
    "out_results v' = (if scriptPubKey (out coin) \<in> nd then emplace key coin (out_results v) else out_results v)"
    using b(2-4) sb by simp_all
  have step: "scan_loop ip ar nd i (cursor_of (r # recs)) v = scan_loop ip ar nd (Suc i) (cursor_of recs) v'"
    using sb by (simp add: cursor_of_def r)
  show ?case
    unfolding step using Cons.IH [OF later v'(2)] v'(1,3)
    by (simp add: collect_matches_def r)
qed

lemma collect_matches_lookup:
  "collect_matches nd recs m k =
     (case m k of Some c \<Rightarrow> Some c
      | None \<Rightarrow> map_of (filter (\<lambda>(key, coin). scriptPubKey (out coin) \<in> nd) recs) k)"
proof (induction recs arbitrary: m)
  case Nil
  then show ?case by (simp add: collect_matches_def split: option.splits)
next
  case (Cons r recs)
  obtain key coin where r: "r = (key, coin)" by (cases r)
  have unfold: "collect_matches nd (r # recs) m =
      collect_matches nd recs (if scriptPubKey (out coin) \<in> nd then emplace key coin m else m)"
    by (simp add: collect_matches_def r)
  show ?case
    unfolding unfold Cons.IH
    by (auto simp: r emplace_def split: option.splits)
qed

lemma collect_matches_graph:
  assumes "distinct (map fst recs)"
  shows "Map.graph (collect_matches nd recs Map.empty) =
           {(key, coin). (key, coin) \<in> set recs \<and> scriptPubKey (out coin) \<in> nd}"
proof -
  have d: "distinct (map fst (filter (\<lambda>(key, coin). scriptPubKey (out coin) \<in> nd) recs))"
    using assms by (rule distinct_map_filter)
  show ?thesis
    by (auto simp: Map.graph_def collect_matches_lookup map_of_eq_Some_iff [OF d])
qed

lemma FindScriptPubKey_exhaust:
  assumes "\<forall>j < length recs. \<not> ip j \<and> \<not> ar j" "\<not> should_abort v"
  shows "fst (FindScriptPubKey ip ar nd (cursor_of recs) v) = Returned True"
    and "count (snd (FindScriptPubKey ip ar nd (cursor_of recs) v)) = of_nat (length recs)"
    and "out_results (snd (FindScriptPubKey ip ar nd (cursor_of recs) v)) = collect_matches nd recs (out_results v)"
    and "scan_progress (snd (FindScriptPubKey ip ar nd (cursor_of recs) v)) = 100"
  using scan_loop_exhaust [of recs ip 0 ar "v\<lparr>scan_progress := 0, count := 0, progress_log := progress_log v @ [0]\<rparr>" nd] assms
  by (simp_all add: FindScriptPubKey_def)

lemma collect_matches_no_needles: "collect_matches {} recs m = m"
  by (induction recs arbitrary: m) (auto simp: collect_matches_def)

lemma total_in_empty: "total_in Map.empty = 0"
  by (simp add: total_in_def)

lemma render_unspents_empty: "render_unspents ds Map.empty = Map.empty"
  by (simp add: render_unspents_def)

lemma scantxoutset_start_runs:
  assumes "idle g" "action request = ''start''" "scanobjects request = Some objs"
    and "build_needles (EvalDescriptorStringOrObject env) (InferDescriptor env) objs ({}, Map.empty) = Inr (nd, ds)"
    and "node_context_found env" "coins_cursor env = Some pcursor" "chain_tip env = Some tip"
    and "FindScriptPubKey (rpc_interruption_point env) (abort_request env) nd pcursor
           \<lparr>scan_progress = 0, should_abort = False, count = 0, out_results = Map.empty,
            progress_log = []\<rparr> = (outcome, v)"
  shows "scantxoutset env request g =
           ((case outcome of
               Interrupted \<Rightarrow> Inl Interruption
             | Returned res \<Rightarrow>
                 Inr (ScanReply \<lparr>success = res, txouts = sint (count v), height = block_height tip,
                        bestblock = block_hash tip,
                        unspents = render_unspents ds (out_results v),
                        total_amount = total_in (out_results v)\<rparr>)),
            g\<lparr>g_scan_in_progress := False, g_scan_progress := 0, g_should_abort_scan := should_abort v \<or> abort_request_late env\<rparr>)"
  using assms
  by (simp add: scantxoutset_def scantxoutset_body_def reserve_def release_def idle_def Let_def
      split: scan_outcome.splits)

text \<open>
  C1.  A scan over a cursor of decodable records with distinct keys that is neither
  interrupted nor aborted returns \<open>true\<close>, counts every record, and its result map holds
  exactly the records whose script is a needle.  In particular a \<open>start\<close> request with an
  empty needle set on a store of \<open>N\<close> records replies \<open>success = true\<close>, \<open>txouts = N\<close>, no
  unspents and a total amount of 0.  (The count is a signed 64-bit integer: \<open>N < 2^63\<close>.)
\<close>

theorem scan_finds_all_matches:
  assumes "distinct (map fst recs)" and "length recs < 2 ^ 63"
    and "\<forall>j < length recs. \<not> ip j \<and> \<not> ar j"
  shows "(\<not> should_abort v \<and> out_results v = Map.empty \<longrightarrow>
            (case FindScriptPubKey ip ar needles (cursor_of recs) v of
               (outcome, v') \<Rightarrow>
                 outcome = Returned True
                 \<and> sint (count v') = int (length recs)
                 \<and> Map.graph (out_results v') =
                     {(key, coin). (key, coin) \<in> set recs \<and> scriptPubKey (out coin) \<in> needles}))
       \<and> (idle g \<and> action request = ''start'' \<and> scanobjects request = Some objs
            \<and> build_needles (EvalDescriptorStringOrObject env) (InferDescriptor env) objs
                 ({}, Map.empty) = Inr ({}, ds)
            \<and> node_context_found env \<and> coins_cursor env = Some (cursor_of recs)
            \<and> chain_tip env = Some tip
            \<and> rpc_interruption_point env = ip \<and> abort_request env = ar \<longrightarrow>
            (\<exists>r g'. scantxoutset env request g = (Inr (ScanReply r), g')
               \<and> success r \<and> txouts r = int (length recs)
               \<and> unspents r = Map.empty \<and> total_amount r = 0))"
proof (intro conjI impI)
  assume v: "\<not> should_abort v \<and> out_results v = Map.empty"
  obtain outcome v' where run: "FindScriptPubKey ip ar needles (cursor_of recs) v = (outcome, v')"
    by (cases "FindScriptPubKey ip ar needles (cursor_of recs) v")
  have "outcome = Returned True"
    using FindScriptPubKey_exhaust(1) [OF assms(3), of v needles] v run by simp
  moreover have "count v' = of_nat (length recs)"
    using FindScriptPubKey_exhaust(2) [OF assms(3), of v needles] v run by simp
  then have "sint (count v') = int (length recs)"
    using assms(2) by (simp add: sint_of_nat_small)
  moreover have "out_results v' = collect_matches needles recs Map.empty"
    using FindScriptPubKey_exhaust(3) [OF assms(3), of v needles] v run by simp
  then have "Map.graph (out_results v') =
      {(key, coin). (key, coin) \<in> set recs \<and> scriptPubKey (out coin) \<in> needles}"
    using collect_matches_graph [OF assms(1)] by simp
  ultimately show "case FindScriptPubKey ip ar needles (cursor_of recs) v of
      (outcome, v') \<Rightarrow>
        outcome = Returned True \<and> sint (count v') = int (length recs)
        \<and> Map.graph (out_results v') =
            {(key, coin). (key, coin) \<in> set recs \<and> scriptPubKey (out coin) \<in> needles}"
    by (simp add: run)
next
  assume a: "idle g \<and> action request = ''start'' \<and> scanobjects request = Some objs
      \<and> build_needles (EvalDescriptorStringOrObject env) (InferDescriptor env) objs
           ({}, Map.empty) = Inr ({}, ds)
      \<and> node_context_found env \<and> coins_cursor env = Some (cursor_of recs)
      \<and> chain_tip env = Some tip
      \<and> rpc_interruption_point env = ip \<and> abort_request env = ar"
  let ?v0 = "\<lparr>scan_progress = 0, should_abort = False, count = 0, out_results = Map.empty,
              progress_log = []\<rparr>"
  obtain outcome v' where run: "FindScriptPubKey ip ar {} (cursor_of recs) ?v0 = (outcome, v')"
    by (cases "FindScriptPubKey ip ar {} (cursor_of recs) ?v0")
  have o: "outcome = Returned True"
    using FindScriptPubKey_exhaust(1) [OF assms(3), of ?v0 "{}"] run by simp
  have "count v' = of_nat (length recs)"
    using FindScriptPubKey_exhaust(2) [OF assms(3), of ?v0 "{}"] run by simp
  then have c: "sint (count v') = int (length recs)"
    using assms(2) by (simp add: sint_of_nat_small)
  have m: "out_results v' = Map.empty"
    using FindScriptPubKey_exhaust(3) [OF assms(3), of ?v0 "{}"] run
    by (simp add: collect_matches_no_needles)
  have "scantxoutset env request g =
      (Inr (ScanReply \<lparr>success = True, txouts = int (length recs), height = block_height tip,
              bestblock = block_hash tip, unspents = Map.empty, total_amount = 0\<rparr>),
       g\<lparr>g_scan_in_progress := False, g_scan_progress := 0, g_should_abort_scan := should_abort v' \<or> abort_request_late env\<rparr>)"
    using scantxoutset_start_runs [of g request objs env "{}" ds "cursor_of recs" tip outcome v'] a run
    by (simp add: o c m total_in_empty render_unspents_empty)
  then show "\<exists>r g'. scantxoutset env request g = (Inr (ScanReply r), g')
      \<and> success r \<and> txouts r = int (length recs) \<and> unspents r = Map.empty \<and> total_amount r = 0"
    by simp
qed

theorem scan_finds_all_matches_witness:
  "(case FindScriptPubKey (\<lambda>i. False) (\<lambda>i. False) {[1]} (cursor_of ex_recs) ex_refs of
      (outcome, v') \<Rightarrow>
        outcome = Returned True \<and> sint (count v') = 2
        \<and> Map.graph (out_results v') = {(ex_key 0, ex_coin [1])})
   \<and> (\<exists>r g'. scantxoutset (ex_env (cursor_of ex_recs) (\<lambda>i. False)) ex_start initial_globals
                = (Inr (ScanReply r), g')
          \<and> success r \<and> txouts r = 2 \<and> unspents r = Map.empty \<and> total_amount r = 0)"
proof -
  have s: "{(key, coin). (key, coin) \<in> set ex_recs \<and> scriptPubKey (out coin) \<in> {[1]}}
      = {(ex_key 0, ex_coin [1])}"
    by (auto simp: ex_recs_def ex_coin_def)
  show ?thesis
    using scan_finds_all_matches [of ex_recs "\<lambda>i. False" "\<lambda>i. False" ex_refs "{[1]}"
        initial_globals ex_start "[]" "ex_env (cursor_of ex_recs) (\<lambda>i. False)" Map.empty ex_tip]
    unfolding s
    by (simp add: ex_recs_def ex_key_def ex_refs_def ex_env_def ex_start_def idle_def
        initial_globals_def)
qed

section \<open>The scan loop by cases\<close>

text \<open>The body on a decodable record, by cases.\<close>

lemma scan_body_decodable:
  assumes "count v = of_nat i"
  shows "scan_body ip ar nd i (Some key, Some coin) v =
     (if Suc i mod 8192 = 0 \<and> ip i then (Some Interrupted, v\<lparr>count := count v + 1\<rparr>)
      else if Suc i mod 8192 = 0 \<and> (should_abort v \<or> ar i)
        then (Some (Returned False), v\<lparr>count := count v + 1, should_abort := True\<rparr>)
      else (None, v\<lparr>count := count v + 1,
              scan_progress := (if Suc i mod 256 = 0 then progress_of (high_of key) else scan_progress v),
              progress_log := (if Suc i mod 256 = 0 then progress_log v @ [progress_of (high_of key)]
                               else progress_log v),
              out_results := (if scriptPubKey (out coin) \<in> nd then emplace key coin (out_results v)
                              else out_results v)\<rparr>))"
  by (simp add: scan_body_def Let_def assms count_check_8192_Suc count_check_256_Suc)

lemma scan_body_undecodable:
  "key = None \<or> coin = None \<Longrightarrow> scan_body ip ar nd i (key, coin) v = (Some (Returned False), v)"
  by (auto simp: scan_body_def split: option.splits)

lemma scan_body_passes:
  assumes "count v = of_nat i" "\<not> stops ip ar (should_abort v) i"
  shows "scan_body ip ar nd i (Some key, Some coin) v =
     (None, v\<lparr>count := count v + 1,
              scan_progress := (if Suc i mod 256 = 0 then progress_of (high_of key) else scan_progress v),
              progress_log := (if Suc i mod 256 = 0 then progress_log v @ [progress_of (high_of key)]
                               else progress_log v),
              out_results := (if scriptPubKey (out coin) \<in> nd then emplace key coin (out_results v)
                              else out_results v)\<rparr>)"
  using assms(2) unfolding scan_body_decodable [OF assms(1)] stops_def by auto

lemma scan_body_stops:
  assumes "count v = of_nat i" "stops ip ar (should_abort v) i"
  shows "scan_body ip ar nd i (Some key, Some coin) v =
     (if ip i then (Some Interrupted, v\<lparr>count := count v + 1\<rparr>)
      else (Some (Returned False), v\<lparr>count := count v + 1, should_abort := True\<rparr>))"
  using assms(2) unfolding scan_body_decodable [OF assms(1)] stops_def by auto

lemma cursor_of_Cons: "cursor_of ((key, coin) # recs) = (Some key, Some coin) # cursor_of recs"
  by (simp add: cursor_of_def)

lemma cursor_of_append: "cursor_of (xs @ ys) = cursor_of xs @ cursor_of ys"
  by (simp add: cursor_of_def)

lemma collect_matches_Cons:
  "collect_matches nd ((key, coin) # recs) m =
     collect_matches nd recs (if scriptPubKey (out coin) \<in> nd then emplace key coin m else m)"
  by (simp add: collect_matches_def)

lemma collect_matches_Nil: "collect_matches nd [] m = m"
  by (simp add: collect_matches_def)

lemma scan_loop_prefix:
  assumes "count v = of_nat i" "\<forall>j < length pre. \<not> stops ip ar (should_abort v) (i + j)"
  shows "\<exists>v1. scan_loop ip ar nd i (cursor_of pre @ cur) v = scan_loop ip ar nd (i + length pre) cur v1
           \<and> count v1 = of_nat (i + length pre) \<and> should_abort v1 = should_abort v
           \<and> out_results v1 = collect_matches nd pre (out_results v)"
  using assms
proof (induction pre arbitrary: i v)
  case Nil
  then show ?case by (intro exI [of _ v]) (simp add: cursor_of_def collect_matches_Nil)
next
  case (Cons r pre)
  obtain key coin where r: "r = (key, coin)" by (cases r)
  define v' where "v' = v\<lparr>count := count v + 1,
      scan_progress := (if Suc i mod 256 = 0 then progress_of (high_of key) else scan_progress v),
      progress_log := (if Suc i mod 256 = 0 then progress_log v @ [progress_of (high_of key)]
                       else progress_log v),
      out_results := (if scriptPubKey (out coin) \<in> nd then emplace key coin (out_results v)
                      else out_results v)\<rparr>"
  have "\<not> stops ip ar (should_abort v) i"
    using Cons.prems(2) by force
  then have body: "scan_body ip ar nd i (Some key, Some coin) v = (None, v')"
    unfolding v'_def by (rule scan_body_passes [OF Cons.prems(1)])
  have c': "count v' = of_nat (Suc i)" and a': "should_abort v' = should_abort v"
    and o': "out_results v' = (if scriptPubKey (out coin) \<in> nd then emplace key coin (out_results v)
                      else out_results v)"
    using Cons.prems(1) by (simp_all add: v'_def)
  have later: "\<forall>j < length pre. \<not> stops ip ar (should_abort v') (Suc i + j)"
    using Cons.prems(2) a' by fastforce
  obtain v1 where v1: "scan_loop ip ar nd (Suc i) (cursor_of pre @ cur) v' =
        scan_loop ip ar nd (Suc i + length pre) cur v1"
      "count v1 = of_nat (Suc i + length pre)" "should_abort v1 = should_abort v'"
      "out_results v1 = collect_matches nd pre (out_results v')"
    using Cons.IH [OF c' later] by blast
  have "scan_loop ip ar nd i (cursor_of (r # pre) @ cur) v =
      scan_loop ip ar nd (Suc i) (cursor_of pre @ cur) v'"
    by (simp add: r cursor_of_Cons body)
  then show ?case
    using v1 a' o' by (intro exI [of _ v1]) (simp add: r collect_matches_Cons)
qed

lemma scan_loop_passes_all:
  assumes "count v = of_nat i" "\<forall>j < length recs. \<not> stops ip ar (should_abort v) (i + j)"
  shows "\<exists>v'. scan_loop ip ar nd i (cursor_of recs) v = (Returned True, v')
           \<and> count v' = of_nat (i + length recs)
           \<and> out_results v' = collect_matches nd recs (out_results v)"
  using scan_loop_prefix [OF assms, of nd "[]"] by auto

lemma scan_loop_stops_at:
  assumes "count v = of_nat i" "p < length recs" "stops ip ar (should_abort v) (i + p)"
    and "\<forall>j < p. \<not> stops ip ar (should_abort v) (i + j)"
  shows "\<exists>v'. scan_loop ip ar nd i (cursor_of recs) v =
                 (if ip (i + p) then Interrupted else Returned False, v')
           \<and> count v' = of_nat (Suc (i + p))
           \<and> out_results v' = collect_matches nd (take p recs) (out_results v)"
proof -
  obtain key coin where r: "recs ! p = (key, coin)" by (cases "recs ! p")
  have split: "recs = take p recs @ (key, coin) # drop (Suc p) recs"
    using id_take_nth_drop [OF assms(2)] r by simp
  have len: "length (take p recs) = p"
    using assms(2) by simp
  have pre: "\<forall>j < length (take p recs). \<not> stops ip ar (should_abort v) (i + j)"
    using assms(4) by simp
  obtain v1 where v1: "scan_loop ip ar nd i (cursor_of (take p recs) @ cursor_of ((key, coin) # drop (Suc p) recs)) v
        = scan_loop ip ar nd (i + p) (cursor_of ((key, coin) # drop (Suc p) recs)) v1"
      "count v1 = of_nat (i + p)" "should_abort v1 = should_abort v"
      "out_results v1 = collect_matches nd (take p recs) (out_results v)"
    using scan_loop_prefix [OF assms(1) pre, of nd "cursor_of ((key, coin) # drop (Suc p) recs)"] len
    by auto
  have st: "stops ip ar (should_abort v1) (i + p)"
    using assms(3) v1(3) by simp
  have "scan_loop ip ar nd i (cursor_of recs) v =
      scan_loop ip ar nd (i + p) (cursor_of ((key, coin) # drop (Suc p) recs)) v1"
    using v1(1) split cursor_of_append by metis
  also have "\<dots> = (if ip (i + p) then (Interrupted, v1\<lparr>count := count v1 + 1\<rparr>)
      else (Returned False, v1\<lparr>count := count v1 + 1, should_abort := True\<rparr>))"
    by (simp add: cursor_of_Cons scan_body_stops [OF v1(2) st])
  finally show ?thesis
    using v1(2,4) by (cases "ip (i + p)") simp_all
qed

lemma scan_loop_undecodable:
  assumes "count v = of_nat i" "\<forall>j < length pre. \<not> stops ip ar (should_abort v) (i + j)"
    and "key = None \<or> coin = None"
  shows "\<exists>v'. scan_loop ip ar nd i (cursor_of pre @ (key, coin) # rest) v = (Returned False, v')
           \<and> count v' = of_nat (i + length pre)
           \<and> out_results v' = collect_matches nd pre (out_results v)"
proof -
  obtain v1 where v1: "scan_loop ip ar nd i (cursor_of pre @ (key, coin) # rest) v =
        scan_loop ip ar nd (i + length pre) ((key, coin) # rest) v1"
      "count v1 = of_nat (i + length pre)"
      "out_results v1 = collect_matches nd pre (out_results v)"
    using scan_loop_prefix [OF assms(1,2), of nd "(key, coin) # rest"] by blast
  show ?thesis
    using v1 by (simp add: scan_body_undecodable [OF assms(3)])
qed

lemma scan_loop_abort_bound:
  assumes "count v = of_nat i" "\<forall>j \<ge> t. ar j"
  shows "\<exists>n. count (snd (scan_loop ip ar nd i (cursor_of recs) v)) = of_nat n
           \<and> n \<le> i + length recs \<and> n \<le> (max i t div 8192 + 1) * 8192"
  using assms(1)
proof (induction recs arbitrary: i v)
  case Nil
  have "i \<le> (max i t div 8192 + 1) * 8192"
    using next_check_gt [of "max i t"] by simp
  then show ?case
    using Nil by (intro exI [of _ i]) (simp add: cursor_of_def)
next
  case (Cons r recs)
  obtain key coin where r: "r = (key, coin)" by (cases r)
  have bound_here: "Suc i \<le> (max i t div 8192 + 1) * 8192"
    using next_check_gt [of "max i t"] by simp
  show ?case
  proof (cases "stops ip ar (should_abort v) i")
    case True
    have "count (snd (scan_loop ip ar nd i (cursor_of (r # recs)) v)) = of_nat (Suc i)"
      using Cons.prems by (simp add: r cursor_of_Cons scan_body_stops [OF Cons.prems True])
    then show ?thesis
      using bound_here by (intro exI [of _ "Suc i"]) simp
  next
    case False
    define v' where "v' = v\<lparr>count := count v + 1,
        scan_progress := (if Suc i mod 256 = 0 then progress_of (high_of key) else scan_progress v),
        progress_log := (if Suc i mod 256 = 0 then progress_log v @ [progress_of (high_of key)]
                         else progress_log v),
        out_results := (if scriptPubKey (out coin) \<in> nd then emplace key coin (out_results v)
                        else out_results v)\<rparr>"
    have body: "scan_body ip ar nd i (Some key, Some coin) v = (None, v')"
      unfolding v'_def by (rule scan_body_passes [OF Cons.prems False])
    have c': "count v' = of_nat (Suc i)"
      using Cons.prems by (simp add: v'_def)
    obtain n where n: "count (snd (scan_loop ip ar nd (Suc i) (cursor_of recs) v')) = of_nat n"
        "n \<le> Suc i + length recs" "n \<le> (max (Suc i) t div 8192 + 1) * 8192"
      using Cons.IH [OF c'] by blast
    have "max (Suc i) t div 8192 = max i t div 8192"
    proof (cases "Suc i \<le> t")
      case True
      then show ?thesis by (simp add: max_def)
    next
      case False
      then have "t \<le> i" by simp
      then have "ar i" using assms(2) by simp
      then have "Suc i mod 8192 \<noteq> 0"
        using \<open>\<not> stops ip ar (should_abort v) i\<close> by (simp add: stops_def)
      then have "Suc i div 8192 = i div 8192"
        by (simp add: div_Suc)
      then show ?thesis
        using \<open>t \<le> i\<close> by (simp add: max_def)
    qed
    then have "n \<le> (max i t div 8192 + 1) * 8192"
      using n(3) by simp
    moreover have "scan_loop ip ar nd i (cursor_of (r # recs)) v =
        scan_loop ip ar nd (Suc i) (cursor_of recs) v'"
      by (simp add: r cursor_of_Cons body)
    ultimately show ?thesis
      using n(1,2) by (intro exI [of _ n]) simp
  qed
qed

lemma FindScriptPubKey_init:
  "FindScriptPubKey ip ar nd cur v =
     scan_loop ip ar nd 0 cur (v\<lparr>scan_progress := 0, count := 0, progress_log := progress_log v @ [0]\<rparr>)"
  by (simp add: FindScriptPubKey_def)

section \<open>Abort and interruption\<close>

text \<open>
  C6 (as amended).  The callback and the abort flag are consulted exactly at the records
  whose count is a multiple of 8192.  A scan that meets no such record with the callback
  throwing or the flag set runs to the end and returns \<open>true\<close>, even when the flag is set
  all along.  At the first such record the scan ends, having counted that record: with the
  callback's exception if it throws, else with \<open>false\<close> and the matches among the records
  before it.  Once the flag is set, from position \<open>t\<close> on, the scan counts at most 8192
  further records.  An abort request made while a scan is in progress sets the flag and
  replies \<open>true\<close>.
\<close>

theorem abort_latency:
  assumes "length recs < 2 ^ 63"
  shows "case FindScriptPubKey ip ar nd (cursor_of recs) v of
      (outcome, v') \<Rightarrow>
        ((\<forall>j < length recs. \<not> stops ip ar (should_abort v) j) \<longrightarrow>
           outcome = Returned True \<and> sint (count v') = int (length recs))
      \<and> (\<forall>p < length recs.
            stops ip ar (should_abort v) p \<and> (\<forall>j < p. \<not> stops ip ar (should_abort v) j) \<longrightarrow>
              outcome = (if ip p then Interrupted else Returned False)
              \<and> sint (count v') = int p + 1
              \<and> out_results v' = collect_matches nd (take p recs) (out_results v))
      \<and> ((\<forall>j \<ge> t. ar j) \<longrightarrow> sint (count v') \<le> int t + 8192)
      \<and> (g_scan_in_progress g \<and> action request = ''abort'' \<longrightarrow>
            scantxoutset env request g = (Inr (BoolReply True), g\<lparr>g_should_abort_scan := True\<rparr>))"
proof -
  let ?v0 = "v\<lparr>scan_progress := 0, count := 0, progress_log := progress_log v @ [0]\<rparr>"
  have c0: "count ?v0 = of_nat 0" by simp
  obtain outcome v' where run: "scan_loop ip ar nd 0 (cursor_of recs) ?v0 = (outcome, v')"
    by (cases "scan_loop ip ar nd 0 (cursor_of recs) ?v0")
  have 1: "outcome = Returned True \<and> sint (count v') = int (length recs)"
    if "\<forall>j < length recs. \<not> stops ip ar (should_abort v) j"
  proof -
    have "\<forall>j < length recs. \<not> stops ip ar (should_abort ?v0) (0 + j)"
      using that by simp
    from scan_loop_passes_all [OF c0 this, of nd] run
    show ?thesis
      using assms by (auto simp: sint_of_nat_small)
  qed
  have 2: "outcome = (if ip p then Interrupted else Returned False)
      \<and> sint (count v') = int p + 1
      \<and> out_results v' = collect_matches nd (take p recs) (out_results v)"
    if "p < length recs" "stops ip ar (should_abort v) p" "\<forall>j < p. \<not> stops ip ar (should_abort v) j"
    for p
  proof -
    have a: "stops ip ar (should_abort ?v0) (0 + p)"
      using that(2) by simp
    have b: "\<forall>j < p. \<not> stops ip ar (should_abort ?v0) (0 + j)"
      using that(3) by simp
    have "Suc p < 2 ^ 63"
      using that(1) assms by simp
    then have "sint (of_nat (Suc p) :: 64 word) = int p + 1"
      by (simp only: sint_of_nat_small)
    with scan_loop_stops_at [OF c0 that(1) a b, of nd] run
    show ?thesis
      by auto
  qed
  have 3: "sint (count v') \<le> int t + 8192" if ar_set: "\<forall>j \<ge> t. ar j"
  proof -
    obtain n where n: "count v' = of_nat n" "n \<le> 0 + length recs"
        "n \<le> (max 0 t div 8192 + 1) * 8192"
      using scan_loop_abort_bound [OF c0 ar_set, of ip nd recs] run by auto
    have "n < 2 ^ 63"
      using n(2) assms by simp
    then have "sint (count v') = int n"
      by (simp add: n(1) sint_of_nat_small)
    moreover have "n \<le> t + 8192"
      using n(3) next_check_le [of t] by simp
    ultimately show ?thesis by simp
  qed
  have 4: "scantxoutset env request g = (Inr (BoolReply True), g\<lparr>g_should_abort_scan := True\<rparr>)"
    if "g_scan_in_progress g" "action request = ''abort''"
    using that by (simp add: scantxoutset_def scantxoutset_body_def reserve_def release_def Let_def)
  show ?thesis
    unfolding FindScriptPubKey_init run prod.case using 1 2 3 4 by blast
qed

theorem abort_latency_witness:
  "(case FindScriptPubKey (\<lambda>i. False) (\<lambda>i. True) {} (cursor_of (ex_store 8192)) ex_refs of
      (outcome, v') \<Rightarrow>
        outcome = Returned False \<and> sint (count v') = 8192 \<and> out_results v' = Map.empty)
   \<and> (case FindScriptPubKey (\<lambda>i. False) (\<lambda>i. True) {} (cursor_of (ex_store 100)) ex_refs of
      (outcome, v') \<Rightarrow> outcome = Returned True \<and> sint (count v') = 100)
   \<and> scantxoutset (ex_env [] (\<lambda>i. False)) \<lparr>action = ''abort'', scanobjects = None\<rparr>
        (initial_globals\<lparr>g_scan_in_progress := True\<rparr>)
      = (Inr (BoolReply True),
         initial_globals\<lparr>g_scan_in_progress := True, g_should_abort_scan := True\<rparr>)"
proof -
  obtain o1 v1 where r1:
    "FindScriptPubKey (\<lambda>i. False) (\<lambda>i. True) {} (cursor_of (ex_store 8192)) ex_refs = (o1, v1)"
    by (cases "FindScriptPubKey (\<lambda>i. False) (\<lambda>i. True) {} (cursor_of (ex_store 8192)) ex_refs")
  obtain o2 v2 where r2:
    "FindScriptPubKey (\<lambda>i. False) (\<lambda>i. True) {} (cursor_of (ex_store 100)) ex_refs = (o2, v2)"
    by (cases "FindScriptPubKey (\<lambda>i. False) (\<lambda>i. True) {} (cursor_of (ex_store 100)) ex_refs")
  have len: "length (ex_store 8192) < 2 ^ 63" "length (ex_store 100) < 2 ^ 63"
    by (simp_all add: ex_store_def)
  have "\<forall>p < length (ex_store 8192).
      stops (\<lambda>i. False) (\<lambda>i. True) (should_abort ex_refs) p
      \<and> (\<forall>j < p. \<not> stops (\<lambda>i. False) (\<lambda>i. True) (should_abort ex_refs) j) \<longrightarrow>
        o1 = (if False then Interrupted else Returned False)
        \<and> sint (count v1) = int p + 1
        \<and> out_results v1 = collect_matches {} (take p (ex_store 8192)) (out_results ex_refs)"
    using abort_latency [OF len(1), where ip = "\<lambda>i. False" and ar = "\<lambda>i. True"
        and nd = "{}" and v = ex_refs and t = 0 and g = initial_globals and request = ex_start
        and env = "ex_env [] (\<lambda>i. False)"]
    by (simp add: r1)
  moreover have "(8191::nat) < length (ex_store 8192)"
    by (simp add: ex_store_def)
  moreover have "stops (\<lambda>i. False) (\<lambda>i. True) (should_abort ex_refs) 8191"
    by (simp add: stops_def)
  moreover have "\<forall>j < 8191. \<not> stops (\<lambda>i. False) (\<lambda>i. True) (should_abort ex_refs) j"
    by (simp add: stops_def ex_refs_def)
  ultimately have a: "o1 = Returned False \<and> sint (count v1) = 8192 \<and> out_results v1 = Map.empty"
    by (simp add: collect_matches_no_needles ex_refs_def)
  have l100: "length (ex_store 100) = 100"
    by (simp add: ex_store_def)
  have "\<forall>j < length (ex_store 100). \<not> stops (\<lambda>i. False) (\<lambda>i. True) (should_abort ex_refs) j"
    by (simp add: stops_def ex_refs_def ex_store_def)
  then have b: "o2 = Returned True \<and> sint (count v2) = 100"
    using abort_latency [OF len(2), where ip = "\<lambda>i. False" and ar = "\<lambda>i. True"
        and nd = "{}" and v = ex_refs and t = 0 and g = initial_globals and request = ex_start
        and env = "ex_env [] (\<lambda>i. False)"]
    by (simp add: r2 l100)
  have c: "scantxoutset (ex_env [] (\<lambda>i. False)) \<lparr>action = ''abort'', scanobjects = None\<rparr>
        (initial_globals\<lparr>g_scan_in_progress := True\<rparr>)
      = (Inr (BoolReply True),
         initial_globals\<lparr>g_scan_in_progress := True, g_should_abort_scan := True\<rparr>)"
    using abort_latency [OF len(2), where ip = "\<lambda>i. False" and ar = "\<lambda>i. True"
        and nd = "{}" and v = ex_refs and t = 0
        and g = "initial_globals\<lparr>g_scan_in_progress := True\<rparr>"
        and request = "\<lparr>action = ''abort'', scanobjects = None\<rparr>"
        and env = "ex_env [] (\<lambda>i. False)"]
    by (simp add: r2)
  show ?thesis
    using a b c by (simp add: r1 r2)
qed

text \<open>
  The claim as stated fails on a short store: the flag is set from the start, and the scan
  of two records returns \<open>true\<close>.
\<close>

theorem abort_latency_counterexample:
  "FindScriptPubKey (\<lambda>i. False) (\<lambda>i. True) {} (cursor_of ex_recs) (ex_refs\<lparr>should_abort := True\<rparr>) =
     (Returned True,
      \<lparr>scan_progress = 100, should_abort = True, count = 2, out_results = Map.empty,
       progress_log = [0, 100]\<rparr>)"
  by (simp add: FindScriptPubKey_def cursor_of_def ex_recs_def ex_refs_def scan_body_def Let_def
      ex_coin_def smod_int_alt_def)

section \<open>Records that do not decode\<close>

text \<open>
  C7 (as amended).  At the first record whose key or value does not decode the scan ends
  at once and returns \<open>false\<close>: the record is not counted, nothing after it is visited,
  and the result holds the matches among the records before it.  The request handler
  reports this as an ordinary reply with \<open>success = false\<close>, not as an error, and
  releases the reservation.
\<close>

theorem decode_failure_ends_scan:
  assumes "key = None \<or> coin = None" and "length pre < 2 ^ 63"
    and "\<forall>j < length pre. \<not> stops ip ar flag j"
  shows "(should_abort v = flag \<longrightarrow>
            (case FindScriptPubKey ip ar nd (cursor_of pre @ (key, coin) # rest) v of
               (outcome, v') \<Rightarrow>
                 outcome = Returned False \<and> sint (count v') = int (length pre)
                 \<and> out_results v' = collect_matches nd pre (out_results v)))
       \<and> (\<not> flag \<and> idle g \<and> action request = ''start'' \<and> scanobjects request = Some objs
            \<and> build_needles (EvalDescriptorStringOrObject env) (InferDescriptor env) objs
                 ({}, Map.empty) = Inr (nd, ds)
            \<and> node_context_found env
            \<and> coins_cursor env = Some (cursor_of pre @ (key, coin) # rest)
            \<and> chain_tip env = Some tip
            \<and> rpc_interruption_point env = ip \<and> abort_request env = ar \<longrightarrow>
            (\<exists>g'. scantxoutset env request g =
               (Inr (ScanReply \<lparr>success = False, txouts = int (length pre),
                       height = block_height tip, bestblock = block_hash tip,
                       unspents = render_unspents ds (collect_matches nd pre Map.empty),
                       total_amount = total_in (collect_matches nd pre Map.empty)\<rparr>), g')
               \<and> idle g'))"
proof -
  have run: "\<exists>v'. FindScriptPubKey ip ar nd (cursor_of pre @ (key, coin) # rest) v = (Returned False, v')
      \<and> sint (count v') = int (length pre)
      \<and> out_results v' = collect_matches nd pre (out_results v)"
    if "should_abort v = flag" for v
  proof -
    let ?v0 = "v\<lparr>scan_progress := 0, count := 0, progress_log := progress_log v @ [0]\<rparr>"
    have c0: "count ?v0 = of_nat 0" by simp
    have "\<forall>j < length pre. \<not> stops ip ar (should_abort ?v0) (0 + j)"
      using assms(3) that by simp
    from scan_loop_undecodable [OF c0 this assms(1), of nd rest]
    show ?thesis
      using assms(2) by (auto simp: FindScriptPubKey_init sint_of_nat_small)
  qed
  show ?thesis
  proof (intro conjI impI)
    assume "should_abort v = flag"
    from run [OF this]
    show "case FindScriptPubKey ip ar nd (cursor_of pre @ (key, coin) # rest) v of
        (outcome, v') \<Rightarrow>
          outcome = Returned False \<and> sint (count v') = int (length pre)
          \<and> out_results v' = collect_matches nd pre (out_results v)"
      by auto
  next
    assume a: "\<not> flag \<and> idle g \<and> action request = ''start'' \<and> scanobjects request = Some objs
        \<and> build_needles (EvalDescriptorStringOrObject env) (InferDescriptor env) objs
             ({}, Map.empty) = Inr (nd, ds)
        \<and> node_context_found env
        \<and> coins_cursor env = Some (cursor_of pre @ (key, coin) # rest)
        \<and> chain_tip env = Some tip
        \<and> rpc_interruption_point env = ip \<and> abort_request env = ar"
    let ?v0 = "\<lparr>scan_progress = 0, should_abort = False, count = 0, out_results = Map.empty,
                progress_log = []\<rparr>"
    have "should_abort ?v0 = flag"
      using a by simp
    from run [OF this] obtain v' where
      v': "FindScriptPubKey ip ar nd (cursor_of pre @ (key, coin) # rest) ?v0 = (Returned False, v')"
        "sint (count v') = int (length pre)" "out_results v' = collect_matches nd pre Map.empty"
      by auto
    have "scantxoutset env request g =
        (Inr (ScanReply \<lparr>success = False, txouts = int (length pre),
                height = block_height tip, bestblock = block_hash tip,
                unspents = render_unspents ds (collect_matches nd pre Map.empty),
                total_amount = total_in (collect_matches nd pre Map.empty)\<rparr>),
         g\<lparr>g_scan_in_progress := False, g_scan_progress := 0, g_should_abort_scan := should_abort v' \<or> abort_request_late env\<rparr>)"
      using scantxoutset_start_runs [of g request objs env nd ds
          "cursor_of pre @ (key, coin) # rest" tip "Returned False" v'] a v'
      by simp
    then show "\<exists>g'. scantxoutset env request g =
        (Inr (ScanReply \<lparr>success = False, txouts = int (length pre),
                height = block_height tip, bestblock = block_hash tip,
                unspents = render_unspents ds (collect_matches nd pre Map.empty),
                total_amount = total_in (collect_matches nd pre Map.empty)\<rparr>), g')
        \<and> idle g'"
      by (simp add: idle_def)
  qed
qed

theorem decode_failure_ends_scan_witness:
  "(case FindScriptPubKey (\<lambda>i. False) (\<lambda>i. False) {[1]} ex_corrupt ex_refs of
      (outcome, v') \<Rightarrow>
        outcome = Returned False \<and> sint (count v') = 1
        \<and> out_results v' = collect_matches {[1]} [(ex_key 0, ex_coin [1])] Map.empty)
   \<and> (\<exists>g'. scantxoutset (ex_env ex_corrupt (\<lambda>i. False)) ex_start initial_globals =
         (Inr (ScanReply \<lparr>success = False, txouts = 1, height = 10, bestblock = replicate 32 1,
                 unspents = Map.empty, total_amount = 0\<rparr>), g')
         \<and> idle g')"
proof -
  have h: "(None :: COutPoint option) = None \<or> Some (ex_coin [2]) = None"
    "length [(ex_key 0, ex_coin [1])] < 2 ^ 63"
    "\<forall>j < length [(ex_key 0, ex_coin [1])]. \<not> stops (\<lambda>i. False) (\<lambda>i. False) False j"
    by (simp_all add: stops_def)
  have a: "case FindScriptPubKey (\<lambda>i. False) (\<lambda>i. False) {[1]} ex_corrupt ex_refs of
      (outcome, v') \<Rightarrow>
        outcome = Returned False \<and> sint (count v') = 1
        \<and> out_results v' = collect_matches {[1]} [(ex_key 0, ex_coin [1])] Map.empty"
    using decode_failure_ends_scan [where key = None and coin = "Some (ex_coin [2])"
        and pre = "[(ex_key 0, ex_coin [1])]" and ip = "\<lambda>i. False" and ar = "\<lambda>i. False"
        and flag = False and v = ex_refs and nd = "{[1]}"
        and rest = "cursor_of [(ex_key 2, ex_coin [1])]", OF h, THEN conjunct1]
    by (simp add: ex_refs_def ex_corrupt_def)
  have b: "\<exists>g'. scantxoutset (ex_env ex_corrupt (\<lambda>i. False)) ex_start initial_globals =
         (Inr (ScanReply \<lparr>success = False, txouts = 1, height = 10, bestblock = replicate 32 1,
                 unspents = Map.empty, total_amount = 0\<rparr>), g')
         \<and> idle g'"
    using decode_failure_ends_scan [where key = None and coin = "Some (ex_coin [2])"
        and pre = "[(ex_key 0, ex_coin [1])]" and ip = "\<lambda>i. False" and ar = "\<lambda>i. False"
        and flag = False and nd = "{}" and rest = "cursor_of [(ex_key 2, ex_coin [1])]"
        and g = initial_globals and request = ex_start and objs = "[]"
        and env = "ex_env ex_corrupt (\<lambda>i. False)" and ds = Map.empty and tip = ex_tip,
        OF h, THEN conjunct2]
    by (simp add: ex_env_def ex_start_def ex_tip_def ex_corrupt_def idle_def
        initial_globals_def collect_matches_no_needles total_in_empty render_unspents_empty)
  show ?thesis
    using a b by simp
qed

text \<open>
  The claim as stated fails: a store whose second record is corrupt gets a reply, not an
  internal error.
\<close>

theorem decode_failure_counterexample:
  "scantxoutset (ex_env ex_corrupt (\<lambda>i. False)) ex_start initial_globals =
     (Inr (ScanReply \<lparr>success = False, txouts = 1, height = 10, bestblock = replicate 32 1,
             unspents = Map.empty, total_amount = 0\<rparr>), initial_globals)"
  by (simp add: scantxoutset_def scantxoutset_body_def reserve_def release_def Let_def
      ex_env_def ex_start_def ex_tip_def ex_corrupt_def initial_globals_def
      FindScriptPubKey_def cursor_of_def scan_body_def ex_coin_def smod_int_alt_def
      total_in_empty render_unspents_empty)

section \<open>Abort without a running scan\<close>

lemma release_idle: "release True g = g\<lparr>g_scan_in_progress := False, g_scan_progress := 0\<rparr>"
  by (simp add: release_def)





text \<open>
  An abort request that is served after the last read of the flag does not stop the scan,
  and the flag stays set when the request is over.
\<close>

lemma late_abort_keeps_flag:
  "scantxoutset (ex_env (cursor_of ex_recs) (\<lambda>i. False)\<lparr>abort_request_late := True\<rparr>) ex_start
      initial_globals =
     (Inr (ScanReply \<lparr>success = True, txouts = 2, height = 10, bestblock = replicate 32 1,
             unspents = Map.empty, total_amount = 0\<rparr>),
      initial_globals\<lparr>g_should_abort_scan := True\<rparr>)"
proof -
  have run: "FindScriptPubKey (\<lambda>i. False) (\<lambda>i. False) {} (cursor_of ex_recs)
      \<lparr>scan_progress = 0, should_abort = False, count = 0, out_results = Map.empty, progress_log = []\<rparr> =
     (Returned True,
      \<lparr>scan_progress = 100, should_abort = False, count = 2, out_results = Map.empty,
       progress_log = [0, 100]\<rparr>)"
    by (simp add: FindScriptPubKey_def cursor_of_def ex_recs_def scan_body_def Let_def
        ex_coin_def smod_int_alt_def)
  show ?thesis
    using scantxoutset_start_runs [of initial_globals ex_start "[]"
        "ex_env (cursor_of ex_recs) (\<lambda>i. False)\<lparr>abort_request_late := True\<rparr>" "{}" Map.empty
        "cursor_of ex_recs" ex_tip "Returned True"
        "\<lparr>scan_progress = 100, should_abort = False, count = 2, out_results = Map.empty,
          progress_log = [0, 100]\<rparr>"]
    by (simp add: run idle_def initial_globals_def ex_start_def ex_env_def ex_tip_def
        render_unspents_empty total_in_empty)
qed

section \<open>Progress\<close>

lemma bytes_le_refl: "bytes_le xs xs"
  by (induction xs) simp_all

lemma keys_of_Cons:
  "keys_of ((key, coin) # cursor) = (case key of None \<Rightarrow> keys_of cursor | Some k \<Rightarrow> k # keys_of cursor)"
  by (simp add: keys_of_def List.map_filter_simps split: option.splits)

lemma keys_of_Nil: "keys_of [] = []"
  by (simp add: keys_of_def List.map_filter_simps)

lemma keys_of_cursor_of: "keys_of (cursor_of recs) = map fst recs"
  by (induction recs) (auto simp: keys_of_Nil keys_of_Cons cursor_of_def)

lemma cursor_ordered_tail: "cursor_ordered (r # cursor) \<Longrightarrow> cursor_ordered cursor"
  by (cases r) (auto simp: cursor_ordered_def keys_of_Cons split: option.splits)

lemma cursor_ordered_head:
  assumes "cursor_ordered ((Some key, coin) # cursor)" "k \<in> set (keys_of cursor)"
  shows "progress_of (high_of key) \<le> progress_of (high_of k)"
proof -
  have "bytes_le (hash key) (hash k)" "length (hash key) = 32" "length (hash k) = 32"
    using assms by (auto simp: cursor_ordered_def keys_of_Cons list_all_iff)
  then show ?thesis
    by (intro progress_of_mono high_of_mono)
qed

lemma scan_body_log:
  "(progress_log (snd (scan_body ip ar nd i r v)) = progress_log v
      \<and> scan_progress (snd (scan_body ip ar nd i r v)) = scan_progress v)
   \<or> (\<exists>key. fst r = Some key
         \<and> progress_log (snd (scan_body ip ar nd i r v)) = progress_log v @ [progress_of (high_of key)]
         \<and> scan_progress (snd (scan_body ip ar nd i r v)) = progress_of (high_of key))"
  by (cases r) (auto simp: scan_body_def Let_def split: option.splits)

lemma scan_body_log_ok:
  assumes "cursor_ordered (r # cursor)" "log_ok v"
    and "\<forall>x \<in> set (progress_log v). \<forall>k \<in> set (keys_of (r # cursor)). x \<le> progress_of (high_of k)"
  shows "log_ok (snd (scan_body ip ar nd i r v))"
    and "\<forall>x \<in> set (progress_log (snd (scan_body ip ar nd i r v))).
           \<forall>k \<in> set (keys_of cursor). x \<le> progress_of (high_of k)"
proof -
  let ?v' = "snd (scan_body ip ar nd i r v)"
  consider (same) "progress_log ?v' = progress_log v" "scan_progress ?v' = scan_progress v"
    | (sample) key where "fst r = Some key"
        "progress_log ?v' = progress_log v @ [progress_of (high_of key)]"
        "scan_progress ?v' = progress_of (high_of key)"
    using scan_body_log [of ip ar nd i r v] by blast
  then have "log_ok ?v' \<and> (\<forall>x \<in> set (progress_log ?v').
           \<forall>k \<in> set (keys_of cursor). x \<le> progress_of (high_of k))"
  proof cases
    case same
    have "\<forall>x \<in> set (progress_log v). \<forall>k \<in> set (keys_of cursor). x \<le> progress_of (high_of k)"
      using assms(3) by (cases r) (auto simp: keys_of_Cons split: option.splits)
    then show ?thesis
      using assms(2) same by (simp add: log_ok_def)
  next
    case sample
    obtain coin where r: "r = (Some key, coin)"
      using sample(1) by (cases r) auto
    have ks: "keys_of (r # cursor) = key # keys_of cursor"
      by (simp add: r keys_of_Cons)
    have here: "\<forall>x \<in> set (progress_log v). x \<le> progress_of (high_of key)"
      using assms(3) by (simp add: ks)
    have later: "\<forall>k \<in> set (keys_of cursor). progress_of (high_of key) \<le> progress_of (high_of k)"
      using cursor_ordered_head assms(1) unfolding r by blast
    have range: "0 \<le> progress_of (high_of key)" "progress_of (high_of key) \<le> 100"
      using progress_of_range [OF high_of_range] by simp_all
    have "log_ok ?v'"
      using assms(2) here range by (simp add: log_ok_def sample sorted_append)
    moreover have "\<forall>x \<in> set (progress_log ?v'). \<forall>k \<in> set (keys_of cursor). x \<le> progress_of (high_of k)"
      using assms(3) later by (auto simp: sample ks)
    ultimately show ?thesis by simp
  qed
  then show "log_ok ?v'"
    and "\<forall>x \<in> set (progress_log ?v'). \<forall>k \<in> set (keys_of cursor). x \<le> progress_of (high_of k)"
    by simp_all
qed

lemma scan_loop_log_ok:
  assumes "cursor_ordered cursor" "log_ok v"
    and "\<forall>x \<in> set (progress_log v). \<forall>k \<in> set (keys_of cursor). x \<le> progress_of (high_of k)"
  shows "log_ok (snd (scan_loop ip ar nd i cursor v))
       \<and> (fst (scan_loop ip ar nd i cursor v) = Returned True \<longrightarrow>
            scan_progress (snd (scan_loop ip ar nd i cursor v)) = 100)"
  using assms
proof (induction cursor arbitrary: i v)
  case Nil
  then show ?case
    by (simp add: log_ok_def sorted_append list_all_iff)
next
  case (Cons r cursor)
  note b = scan_body_log_ok [OF Cons.prems, of ip ar nd i]
  show ?case
  proof (cases "scan_body ip ar nd i r v")
    case (Pair res v')
    show ?thesis
    proof (cases res)
      case None
      have "scan_loop ip ar nd i (r # cursor) v = scan_loop ip ar nd (Suc i) cursor v'"
        by (simp add: Pair None)
      then show ?thesis
        using Cons.IH [OF cursor_ordered_tail [OF Cons.prems(1)], of v' "Suc i"] b Pair by simp
    next
      case (Some outcome)
      have stop: "scan_loop ip ar nd i (r # cursor) v = (outcome, v')"
        by (simp add: Pair Some)
      have "outcome \<noteq> Returned True"
        using Pair Some by (cases r) (auto simp: scan_body_def Let_def split: option.splits if_splits)
      then show ?thesis
        unfolding stop using b(1) Pair by simp
    qed
  qed
qed

lemma FindScriptPubKey_log_sorted:
  assumes "cursor_ordered cursor"
  shows "case FindScriptPubKey ip ar nd cursor (v\<lparr>progress_log := []\<rparr>) of
      (outcome, v') \<Rightarrow>
        sorted (progress_log v')
        \<and> (\<forall>x \<in> set (progress_log v'). 0 \<le> x \<and> x \<le> 100)
        \<and> scan_progress v' = last (progress_log v')
        \<and> (outcome = Returned True \<longrightarrow> scan_progress v' = 100)"
proof -
  let ?v0 = "v\<lparr>progress_log := [], scan_progress := 0, count := 0, progress_log := [] @ [0]\<rparr>"
  have init: "FindScriptPubKey ip ar nd cursor (v\<lparr>progress_log := []\<rparr>) = scan_loop ip ar nd 0 cursor ?v0"
    by (simp add: FindScriptPubKey_def)
  have ok: "log_ok ?v0"
    by (simp add: log_ok_def)
  have low: "\<forall>x \<in> set (progress_log ?v0). \<forall>k \<in> set (keys_of cursor). x \<le> progress_of (high_of k)"
    using progress_of_range(1) [OF high_of_range] by simp
  show ?thesis
    using scan_loop_log_ok [OF assms ok low, of ip ar nd 0]
    unfolding init by (auto simp: log_ok_def list_all_iff split: prod.splits)
qed

text \<open>
  The stores of one scan, exactly: 0 at the start, a sample at every record whose count
  is a multiple of 256, and 100 at the end when the cursor is exhausted.
\<close>

lemma scan_loop_log_all:
  assumes "count v = of_nat i" "\<forall>j < length recs. \<not> stops ip ar (should_abort v) (i + j)"
  shows "progress_log (snd (scan_loop ip ar nd i (cursor_of recs) v)) =
           progress_log v @ progress_samples i recs @ [100]"
  using assms
proof (induction recs arbitrary: i v)
  case Nil
  then show ?case by (simp add: cursor_of_def)
next
  case (Cons r recs)
  obtain key coin where r: "r = (key, coin)" by (cases r)
  define v' where "v' = v\<lparr>count := count v + 1,
      scan_progress := (if Suc i mod 256 = 0 then progress_of (high_of key) else scan_progress v),
      progress_log := (if Suc i mod 256 = 0 then progress_log v @ [progress_of (high_of key)]
                       else progress_log v),
      out_results := (if scriptPubKey (out coin) \<in> nd then emplace key coin (out_results v)
                      else out_results v)\<rparr>"
  have "\<not> stops ip ar (should_abort v) i"
    using Cons.prems(2) by force
  then have body: "scan_body ip ar nd i (Some key, Some coin) v = (None, v')"
    unfolding v'_def by (rule scan_body_passes [OF Cons.prems(1)])
  have c': "count v' = of_nat (Suc i)" and a': "should_abort v' = should_abort v"
    using Cons.prems(1) by (simp_all add: v'_def)
  have later: "\<forall>j < length recs. \<not> stops ip ar (should_abort v') (Suc i + j)"
    using Cons.prems(2) a' by fastforce
  have "scan_loop ip ar nd i (cursor_of (r # recs)) v = scan_loop ip ar nd (Suc i) (cursor_of recs) v'"
    by (simp add: r cursor_of_Cons body)
  then show ?case
    using Cons.IH [OF c' later] by (simp add: r v'_def)
qed

lemma scan_loop_log_stop:
  assumes "count v = of_nat i" "p < length recs" "stops ip ar (should_abort v) (i + p)"
    and "\<forall>j < p. \<not> stops ip ar (should_abort v) (i + j)"
  shows "progress_log (snd (scan_loop ip ar nd i (cursor_of recs) v)) =
           progress_log v @ progress_samples i (take p recs)"
  using assms
proof (induction recs arbitrary: i v p)
  case Nil
  then show ?case by simp
next
  case (Cons r recs)
  obtain key coin where r: "r = (key, coin)" by (cases r)
  show ?case
  proof (cases p)
    case 0
    then have "stops ip ar (should_abort v) i"
      using Cons.prems(3) by simp
    then show ?thesis
      by (simp add: 0 r cursor_of_Cons scan_body_stops [OF Cons.prems(1)])
  next
    case (Suc q)
    define v' where "v' = v\<lparr>count := count v + 1,
        scan_progress := (if Suc i mod 256 = 0 then progress_of (high_of key) else scan_progress v),
        progress_log := (if Suc i mod 256 = 0 then progress_log v @ [progress_of (high_of key)]
                         else progress_log v),
        out_results := (if scriptPubKey (out coin) \<in> nd then emplace key coin (out_results v)
                        else out_results v)\<rparr>"
    have "\<not> stops ip ar (should_abort v) i"
      using Cons.prems(4) Suc by force
    then have body: "scan_body ip ar nd i (Some key, Some coin) v = (None, v')"
      unfolding v'_def by (rule scan_body_passes [OF Cons.prems(1)])
    have c': "count v' = of_nat (Suc i)" and a': "should_abort v' = should_abort v"
      using Cons.prems(1) by (simp_all add: v'_def)
    have q: "q < length recs"
      using Cons.prems(2) Suc by simp
    have st: "stops ip ar (should_abort v') (Suc i + q)"
      using Cons.prems(3) Suc a' by simp
    have later: "\<forall>j < q. \<not> stops ip ar (should_abort v') (Suc i + j)"
      using Cons.prems(4) a' Suc by fastforce
    have "scan_loop ip ar nd i (cursor_of (r # recs)) v = scan_loop ip ar nd (Suc i) (cursor_of recs) v'"
      by (simp add: r cursor_of_Cons body)
    then show ?thesis
      using Cons.IH [OF c' q st later] by (simp add: r v'_def Suc)
  qed
qed

lemma progress_samples_none:
  "i div 256 = (i + length recs) div 256 \<Longrightarrow> progress_samples i recs = []"
proof (induction recs arbitrary: i)
  case Nil
  then show ?case by simp
next
  case (Cons r recs)
  obtain key coin where r: "r = (key, coin)" by (cases r)
  have le: "Suc i div 256 \<le> (i + length (r # recs)) div 256"
    by (intro div_le_mono) simp
  have "i div 256 \<le> Suc i div 256"
    by (intro div_le_mono) simp
  then have same: "Suc i div 256 = i div 256"
    using le Cons.prems by simp
  then have "Suc i mod 256 \<noteq> 0"
    by (simp add: div_Suc split: if_splits)
  moreover have "Suc i div 256 = (Suc i + length recs) div 256"
    using same Cons.prems by simp
  ultimately show ?case
    using Cons.IH [of "Suc i"] by (simp add: r)
qed

lemma progress_samples_append:
  "progress_samples i (xs @ ys) = progress_samples i xs @ progress_samples (i + length xs) ys"
  by (induction xs arbitrary: i) auto

lemma ex_half_samples: "progress_samples 0 ex_half = [50]"
proof -
  have a: "progress_samples 0 (ex_store 255) = []"
    by (rule progress_samples_none) (simp add: ex_store_def)
  have u: "[0..<200] = 0 # [1..<200]"
    by (simp add: upt_conv_Cons)
  have b: "progress_samples 256
      (map (\<lambda>i. (\<lparr>hash = 128 # replicate 31 0, vout_n = of_nat i\<rparr>, ex_coin [1])) [1..<200]) = []"
    by (rule progress_samples_none) simp
  have l: "length (ex_store 255) = 255"
    by (simp add: ex_store_def)
  show ?thesis
    unfolding ex_half_def progress_samples_append l u
    using a b by (simp add: progress_of_eq high_of_def)
qed

lemma sorted_wrt_same: "\<forall>x \<in> set xs. \<forall>y \<in> set xs. P x y \<Longrightarrow> sorted_wrt P xs"
  by (induction xs) auto

lemma ex_half_ordered: "cursor_ordered (cursor_of ex_half)"
proof -
  have z: "bytes_le (replicate 32 0) (128 # replicate 31 0)"
    by (simp add: numeral_eq_Suc)
  have "sorted_wrt (\<lambda>a b. bytes_le (hash a) (hash b)) (map fst ex_half)"
    unfolding ex_half_def map_append sorted_wrt_append
    by (intro conjI sorted_wrt_same) (auto simp: ex_store_def ex_key_def bytes_le_refl z)
  moreover have "\<forall>k \<in> set (map fst ex_half). length (hash k) = 32"
    by (auto simp: ex_half_def ex_store_def ex_key_def)
  ultimately show ?thesis
    by (simp add: cursor_ordered_def keys_of_cursor_of list_all_iff)
qed

lemma ex_half_log:
  "progress_log (snd (FindScriptPubKey (\<lambda>i. False) (\<lambda>i. False) {} (cursor_of ex_half) ex_refs)) = [0, 50, 100]"
proof -
  have "\<forall>j < length ex_half. \<not> stops (\<lambda>i. False) (\<lambda>i. False) False (0 + j)"
    by (simp add: stops_def)
  then show ?thesis
    using scan_loop_log_all [of "ex_refs\<lparr>scan_progress := 0, count := 0, progress_log := progress_log ex_refs @ [0]\<rparr>"
        0 ex_half "\<lambda>i. False" "\<lambda>i. False" "{}"]
    by (simp add: FindScriptPubKey_init ex_half_samples ex_refs_def)
qed

text \<open>The concurrent requests: accesses of the run \<open>ex_race\<close>, one by one.\<close>

lemma step_as: "step kind t s s' \<Longrightarrow> s' = s'' \<Longrightarrow> step kind t s s''"
  by simp

lemma race_state_start: "(initial_globals, \<lambda>t. Before_reserve) = race_state 0 False Before_reserve Before_reserve Before_reserve Before_reserve"
  by (auto simp: race_state_def initial_globals_def fun_eq_iff)

lemma ex_race_follows:
  "follows ex_race_kind (initial_globals, \<lambda>t. Before_reserve) ex_race"
proof -
  have s1: "step ex_race_kind 0 (race_state 0 False Before_reserve Before_reserve Before_reserve Before_reserve) (race_state 0 True After_exchange Before_reserve Before_reserve Before_reserve)"
    unfolding race_state_def
    by (rule step_as [OF step.exchange_false]) (auto simp: ex_race_kind_def fun_eq_iff)
  have s2: "step ex_race_kind 0 (race_state 0 True After_exchange Before_reserve Before_reserve Before_reserve) (race_state 0 True Reserved Before_reserve Before_reserve Before_reserve)"
    unfolding race_state_def
    by (rule step_as [OF step.check_passes]) (auto simp: ex_race_kind_def fun_eq_iff)
  have s3: "step ex_race_kind 0 (race_state 0 True Reserved Before_reserve Before_reserve Before_reserve) (race_state 0 False Destructor_mid Before_reserve Before_reserve Before_reserve)"
    unfolding race_state_def
    by (rule step_as [OF step.destructor_first]) (auto simp: ex_race_kind_def fun_eq_iff)
  have s4: "step ex_race_kind 1 (race_state 0 False Destructor_mid Before_reserve Before_reserve Before_reserve) (race_state 0 True Destructor_mid After_exchange Before_reserve Before_reserve)"
    unfolding race_state_def
    by (rule step_as [OF step.exchange_false]) (auto simp: ex_race_kind_def fun_eq_iff)
  have s5: "step ex_race_kind 1 (race_state 0 True Destructor_mid After_exchange Before_reserve Before_reserve) (race_state 0 True Destructor_mid Reserved Before_reserve Before_reserve)"
    unfolding race_state_def
    by (rule step_as [OF step.check_passes]) (auto simp: ex_race_kind_def fun_eq_iff)
  have s6: "step ex_race_kind 1 (race_state 0 True Destructor_mid Reserved Before_reserve Before_reserve) (race_state 0 True Destructor_mid Reserved Before_reserve Before_reserve)"
    unfolding race_state_def
    by (rule step_as [OF step.scan_clears_flag]) (auto simp: ex_race_kind_def fun_eq_iff)
  have s7: "step ex_race_kind 1 (race_state 0 True Destructor_mid Reserved Before_reserve Before_reserve) (race_state 0 True Destructor_mid Reserved Before_reserve Before_reserve)"
    unfolding race_state_def
    by (rule step_as [OF step.scan_stores_progress [where p = 0]]) (auto simp: ex_race_kind_def fun_eq_iff)
  have s8: "step ex_race_kind 1 (race_state 0 True Destructor_mid Reserved Before_reserve Before_reserve) (race_state 50 True Destructor_mid Reserved Before_reserve Before_reserve)"
    unfolding race_state_def
    by (rule step_as [OF step.scan_stores_progress [where p = 50]]) (auto simp: ex_race_kind_def fun_eq_iff)
  have s9: "step ex_race_kind 2 (race_state 50 True Destructor_mid Reserved Before_reserve Before_reserve) (race_state 50 True Destructor_mid Reserved Reserve_failed Before_reserve)"
    unfolding race_state_def
    by (rule step_as [OF step.exchange_true]) (auto simp: ex_race_kind_def fun_eq_iff)
  have s10: "step ex_race_kind 2 (race_state 50 True Destructor_mid Reserved Reserve_failed Before_reserve) (race_state 50 True Destructor_mid Reserved Finished Before_reserve)"
    unfolding race_state_def
    by (rule step_as [OF step.status_reads_progress]) (auto simp: ex_race_kind_def fun_eq_iff)
  have s11: "step ex_race_kind 0 (race_state 50 True Destructor_mid Reserved Finished Before_reserve) (race_state 0 True Finished Reserved Finished Before_reserve)"
    unfolding race_state_def
    by (rule step_as [OF step.destructor_second]) (auto simp: ex_race_kind_def fun_eq_iff)
  have s12: "step ex_race_kind 3 (race_state 0 True Finished Reserved Finished Before_reserve) (race_state 0 True Finished Reserved Finished Reserve_failed)"
    unfolding race_state_def
    by (rule step_as [OF step.exchange_true]) (auto simp: ex_race_kind_def fun_eq_iff)
  have s13: "step ex_race_kind 3 (race_state 0 True Finished Reserved Finished Reserve_failed) (race_state 0 True Finished Reserved Finished Finished)"
    unfolding race_state_def
    by (rule step_as [OF step.status_reads_progress]) (auto simp: ex_race_kind_def fun_eq_iff)
  show ?thesis
    unfolding ex_race_def follows.simps race_state_start
    using s1 s2 s3 s4 s5 s6 s7 s8 s9 s10 s11 s12 s13 by simp
qed


lemma status_reads_current:
  assumes "g_scan_in_progress g" "action request = ''status''"
  shows "scantxoutset env request g = (Inr (ProgressReply (g_scan_progress g)), g)"
  using assms by (simp add: scantxoutset_def scantxoutset_body_def reserve_def release_def Let_def)

lemma reserve_check_fails_in_release:
  assumes "ph t = Reserved" "ph u = Before_reserve" "g_scan_progress g \<noteq> 0"
  shows "step kind t (g, ph) (g\<lparr>g_scan_in_progress := False\<rparr>, ph(t := Destructor_mid))
       \<and> step kind u (g\<lparr>g_scan_in_progress := False\<rparr>, ph(t := Destructor_mid))
            (g\<lparr>g_scan_in_progress := True\<rparr>, ph(t := Destructor_mid, u := After_exchange))
       \<and> step kind u (g\<lparr>g_scan_in_progress := True\<rparr>, ph(t := Destructor_mid, u := After_exchange))
            (g\<lparr>g_scan_in_progress := True\<rparr>, ph(t := Destructor_mid, u := Finished))
       \<and> fst (reserve False (g\<lparr>g_scan_in_progress := False\<rparr>)) = Inl NonFatalCheckError"
proof -
  have ut: "u \<noteq> t"
    using assms(1,2) by auto
  have 1: "step kind t (g, ph) (g\<lparr>g_scan_in_progress := False\<rparr>, ph(t := Destructor_mid))"
    using assms(1) by (rule step.destructor_first)
  have 2: "step kind u (g\<lparr>g_scan_in_progress := False\<rparr>, ph(t := Destructor_mid))
      (g\<lparr>g_scan_in_progress := True\<rparr>, ph(t := Destructor_mid, u := After_exchange))"
    by (rule step_as [OF step.exchange_false]) (use assms(2) ut in auto)
  have 3: "step kind u (g\<lparr>g_scan_in_progress := True\<rparr>, ph(t := Destructor_mid, u := After_exchange))
      (g\<lparr>g_scan_in_progress := True\<rparr>, ph(t := Destructor_mid, u := Finished))"
    by (rule step_as [OF step.check_throws]) (use assms(3) in auto)
  have 4: "fst (reserve False (g\<lparr>g_scan_in_progress := False\<rparr>)) = Inl NonFatalCheckError"
    using assms(3) by (simp add: reserve_def Let_def)
  show ?thesis
    using 1 2 3 4 by simp
qed

text \<open>
  C5 (the code falls short of it).  Taken alone, a scan over an ordered cursor stores
  values that never decrease, samples the first two hash bytes at every 256th record and
  stores 100 when it completes (the lemmas above).  But the destructor of the reserver
  clears \<open>g_scan_in_progress\<close> before it resets \<open>g_scan_progress\<close>, and every request, a
  status request too, takes the reservation when no scan runs.  So a request that is
  leaving can store its 0 into the progress of the scan that reserved after it: in the run
  \<open>ex_race\<close> over the ordered store \<open>ex_half\<close>, whose scan stores 0, 50 and 100, thread 1
  holds the reservation from the fifth access on, the status request of thread 2 replies
  50 and the later status request of thread 3 replies 0, within that one scan.  In the
  same window the check \<open>g_scan_progress == 0\<close> of \<open>reserve\<close> can fail
  (\<open>reserve_check_fails_in_release\<close>).
\<close>

theorem progress_drops_within_one_scan:
  "cursor_ordered (cursor_of ex_half)
   \<and> progress_log (snd (FindScriptPubKey (\<lambda>i. False) (\<lambda>i. False) {} (cursor_of ex_half) ex_refs))
       = [0, 50, 100]
   \<and> follows ex_race_kind (initial_globals, \<lambda>t. Before_reserve) ex_race
   \<and> list_all (\<lambda>(t, s). snd s 1 = Reserved) (drop 4 ex_race)
   \<and> fst (scantxoutset (ex_env (cursor_of ex_half) (\<lambda>i. False)) \<lparr>action = ''status'', scanobjects = None\<rparr>
         (fst (race_state 50 True Destructor_mid Reserved Reserve_failed Before_reserve)))
       = Inr (ProgressReply 50)
   \<and> fst (scantxoutset (ex_env (cursor_of ex_half) (\<lambda>i. False)) \<lparr>action = ''status'', scanobjects = None\<rparr>
         (fst (race_state 0 True Finished Reserved Finished Reserve_failed)))
       = Inr (ProgressReply 0)"
proof -
  have a: "list_all (\<lambda>(t, s). snd s 1 = Reserved) (drop 4 ex_race)"
    by (simp add: ex_race_def race_state_def)
  have b: "fst (scantxoutset env \<lparr>action = ''status'', scanobjects = None\<rparr> (fst (race_state p True p0 p1 p2 p3)))
      = Inr (ProgressReply p)" for env :: "string scan_env" and p p0 p1 p2 p3
    by (simp add: status_reads_current race_state_def)
  show ?thesis
    using ex_half_ordered ex_half_log ex_race_follows a b by simp
qed


section \<open>The snapshot export by cases\<close>

lemma fs_after_Nil: "fs_after fs [] = fs"
  by (simp add: fs_after_def)

lemma fs_after_Cons: "fs_after fs (e # es) = fs_after (apply_effect fs e) es"
  by (simp add: fs_after_def)

lemma fs_after_append: "fs_after fs (es @ es') = fs_after (fs_after fs es) es'"
  by (simp add: fs_after_def)

lemma apply_effect_other: "writes_to tmp e \<Longrightarrow> p \<noteq> tmp \<Longrightarrow> apply_effect fs e p = fs p"
  by (cases e) (auto split: option.splits)

lemma fs_after_other:
  "writes_only_to tmp es \<Longrightarrow> p \<noteq> tmp \<Longrightarrow> fs_after fs es p = fs p"
proof (induction es arbitrary: fs)
  case Nil
  then show ?case by (simp add: fs_after_Nil)
next
  case (Cons e es)
  have "writes_to tmp e" "writes_only_to tmp es"
    using Cons.prems(1) by (simp_all add: writes_only_to_def)
  then show ?case
    using Cons.IH [of "apply_effect fs e"] Cons.prems(2)
    by (simp add: fs_after_Cons apply_effect_other)
qed

lemma writes_only_to_take: "writes_only_to tmp es \<Longrightarrow> writes_only_to tmp (take k es)"
  unfolding writes_only_to_def list_all_iff by (auto dest: in_set_takeD)

lemma writes_only_to_append:
  "writes_only_to tmp (es @ es') = (writes_only_to tmp es \<and> writes_only_to tmp es')"
  by (simp add: writes_only_to_def)

lemma writes_only_to_writes: "writes_only_to tmp (map (Fwrite tmp) items)"
  by (simp add: writes_only_to_def list_all_iff)

lemma fs_after_writes:
  "fs tmp = Some content \<Longrightarrow> fs_after fs (map (Fwrite tmp) items) = fs(tmp \<mapsto> content @ items)"
proof (induction items arbitrary: fs content)
  case Nil
  then show ?case by (simp add: fs_after_Nil fun_upd_idem)
next
  case (Cons x items)
  have "fs_after (fs(tmp \<mapsto> content @ [x])) (map (Fwrite tmp) items) =
      (fs(tmp \<mapsto> content @ [x]))(tmp \<mapsto> (content @ [x]) @ items)"
    by (rule Cons.IH) simp
  then show ?case
    using Cons.prems by (simp add: fs_after_Cons)
qed

text \<open>The streaming loop.\<close>

lemma write_coins_writes:
  "writes_only_to tmp (snd (write_coins ip fails tmp cursor iter i w))"
proof (induction cursor arbitrary: iter i w)
  case Nil
  then show ?case by (simp add: writes_only_to_def)
next
  case (Cons r cursor)
  show ?case
    using Cons.IH [of "iter + 1" "Suc i" "Suc (Suc w)"] Cons.IH [of "iter + 1" "Suc i" w]
    by (cases r) (auto simp: writes_only_to_def split: option.splits prod.splits)
qed

lemma write_coins_complete:
  "write_coins ip fails tmp cursor iter i w = (None, effects) \<Longrightarrow>
     effects = map (Fwrite tmp) (snapshot_body (decodable cursor))"
proof (induction cursor arbitrary: iter i w effects)
  case Nil
  then show ?case by (simp add: snapshot_body_def)
next
  case (Cons r cursor)
  obtain key coin where r: "r = (key, coin)" by (cases r)
  show ?case
  proof (cases "\<exists>k c. key = Some k \<and> coin = Some c")
    case True
    then obtain k c where kc: "key = Some k" "coin = Some c" by blast
    obtain e effs where rec: "write_coins ip fails tmp cursor (iter + 1) (Suc i) (Suc (Suc w)) = (e, effs)"
      by (cases "write_coins ip fails tmp cursor (iter + 1) (Suc i) (Suc (Suc w))")
    have "e = None \<and> effects = Fwrite tmp (OutPoint_item k) # Fwrite tmp (Coin_item c) # effs"
      using Cons.prems by (auto simp: r kc rec split: if_splits)
    then show ?thesis
      using Cons.IH [of "iter + 1" "Suc i" "Suc (Suc w)" effs] rec
      by (simp add: r kc snapshot_body_def)
  next
    case False
    then have skip: "write_coins ip fails tmp (r # cursor) iter i w =
        (if unat iter mod 5000 = 0 \<and> ip i then (Some Interruption, [])
         else write_coins ip fails tmp cursor (iter + 1) (Suc i) w)"
      by (auto simp: r split: option.splits)
    have d: "decodable (r # cursor) = decodable cursor"
      using False by (cases key; cases coin) (simp_all add: r)
    have "write_coins ip fails tmp cursor (iter + 1) (Suc i) w = (None, effects)"
      using Cons.prems unfolding skip by (auto split: if_splits)
    then show ?thesis
      using Cons.IH d by simp
  qed
qed

lemma write_coins_succeeds:
  assumes "\<forall>j. \<not> ip j" "\<forall>k. \<not> fails k"
  shows "fst (write_coins ip fails tmp cursor iter i w) = None"
proof (induction cursor arbitrary: iter i w)
  case Nil
  then show ?case by simp
next
  case (Cons r cursor)
  show ?case
    using assms Cons.IH [of "iter + 1" "Suc i" "Suc (Suc w)"] Cons.IH [of "iter + 1" "Suc i" w]
    by (cases r) (auto split: option.splits prod.splits)
qed

lemma writes_only_to_window: "writes_only_to tmp coordination_window"
  by (simp add: writes_only_to_def coordination_window_def)

lemma CreateUTXOSnapshot_Inr:
  assumes "CreateUTXOSnapshot env afile = (Inr r, effects)"
  shows "\<exists>tmp stats tip items.
           afile = Some tmp \<and> utxo_stats env = Inr (Some stats)
           \<and> block_index env (hashBlock stats) = Some tip
           \<and> complete_snapshot env = Some items
           \<and> effects = coordination_window @ map (Fwrite tmp) items @ [Fclose tmp]
           \<and> r = \<lparr>coins_written = coins_count stats, base_hash = block_hash tip,
                  base_height = block_height tip, dump_path = None\<rparr>"
proof -
  obtain stats where stats: "utxo_stats env = Inr (Some stats)"
    using assms by (auto simp: CreateUTXOSnapshot_def split: sum.splits option.splits)
  obtain tip where tip: "block_index env (hashBlock stats) = Some tip"
    using assms by (auto simp: CreateUTXOSnapshot_def stats split: option.splits)
  obtain tmp where tmp: "afile = Some tmp"
    using assms by (auto simp: CreateUTXOSnapshot_def stats tip Let_def split: option.splits)
  let ?m = "\<lparr>m_base_blockhash = block_hash tip, m_coins_count = coins_count stats,
             m_nchaintx = nChainTx tip\<rparr>"
  obtain e writes where loop:
    "write_coins (interruption env) (write_fails env) tmp (db_cursor env) 0 0 (Suc 0) = (e, writes)"
    by (cases "write_coins (interruption env) (write_fails env) tmp (db_cursor env) 0 0 (Suc 0)")
  have res: "e = None \<and> \<not> write_fails env 0
      \<and> effects = coordination_window @ Fwrite tmp (Metadata_item ?m) # writes @ [Fclose tmp]
      \<and> r = \<lparr>coins_written = coins_count stats, base_hash = block_hash tip,
             base_height = block_height tip, dump_path = None\<rparr>"
    using assms
    by (auto simp: CreateUTXOSnapshot_def stats tip tmp loop Let_def coordination_window_def
        split: if_splits option.splits)
  then have "writes = map (Fwrite tmp) (snapshot_body (decodable (db_cursor env)))"
    using write_coins_complete loop by blast
  moreover have "complete_snapshot env = Some (Metadata_item ?m # snapshot_body (decodable (db_cursor env)))"
    by (simp add: complete_snapshot_def stats tip)
  ultimately show ?thesis
    using res stats tip tmp by simp
qed

lemma CreateUTXOSnapshot_Inl:
  assumes "CreateUTXOSnapshot env afile = (Inl e, effects)" "\<forall>f. afile = Some f \<longrightarrow> f = tmp"
  shows "writes_only_to tmp effects"
proof -
  have w: "writes_only_to tmp (snd (write_coins (interruption env) (write_fails env) tmp (db_cursor env) 0 0 1))"
    by (rule write_coins_writes)
  show ?thesis
    using assms w
    by (auto simp: CreateUTXOSnapshot_def Let_def writes_only_to_def
        split: sum.splits option.splits if_splits prod.splits)
qed

lemma dumptxoutset_rejects:
  "fs (AbsPathJoin env arg) \<noteq> None \<Longrightarrow> dumptxoutset env fs arg = (Inl RPC_INVALID_PARAMETER, [])"
  by (simp add: dumptxoutset_def Let_def)

lemma dumptxoutset_Inl:
  assumes "dumptxoutset env fs arg = (Inl e, effects)"
  shows "writes_only_to (AbsPathJoin env (arg @ ''.incomplete'')) effects"
proof (cases "fs (AbsPathJoin env arg) \<noteq> None")
  case True
  then show ?thesis
    using assms by (simp add: dumptxoutset_rejects writes_only_to_def)
next
  case False
  let ?tmp = "AbsPathJoin env (arg @ ''.incomplete'')"
  let ?afile = "if fopen_ok env then Some ?tmp else None"
  let ?opened = "if fopen_ok env then [Fopen ?tmp] else []"
  have o: "writes_only_to ?tmp ?opened"
    by (simp add: writes_only_to_def)
  show ?thesis
  proof (cases "node_found env")
    case nf: False
    then show ?thesis
      using assms False o by (auto simp: dumptxoutset_def Let_def)
  next
    case nt: True
    obtain res effs where c: "CreateUTXOSnapshot env ?afile = (res, effs)"
      by (cases "CreateUTXOSnapshot env ?afile")
    show ?thesis
    proof (cases res)
      case (Inl e')
      have "writes_only_to ?tmp effs"
        using CreateUTXOSnapshot_Inl [of env ?afile e' effs ?tmp] c Inl by simp
      moreover have "effects = ?opened @ effs"
        using assms False nt c Inl by (auto simp: dumptxoutset_def Let_def)
      ultimately show ?thesis
        using o by (simp add: writes_only_to_append)
    next
      case (Inr r)
      obtain tmp' items where i: "?afile = Some tmp'"
          "effs = coordination_window @ map (Fwrite tmp') items @ [Fclose tmp']"
        using CreateUTXOSnapshot_Inr [of env ?afile r effs] c Inr by auto
      have t: "tmp' = ?tmp"
        using i(1) by (auto split: if_splits)
      have "writes_only_to ?tmp effs"
        unfolding i(2) t
        by (simp add: writes_only_to_append writes_only_to_window writes_only_to_writes)
          (simp add: writes_only_to_def)
      moreover have "effects = ?opened @ effs"
        using assms False nt c Inr by (auto simp: dumptxoutset_def Let_def split: if_splits)
      ultimately show ?thesis
        using o by (simp add: writes_only_to_append)
    qed
  qed
qed

lemma dumptxoutset_Inr:
  assumes "dumptxoutset env fs arg = (Inr r, effects)"
  shows "\<exists>stats tip items.
           fs (AbsPathJoin env arg) = None \<and> fopen_ok env \<and> node_found env \<and> rename_ok env
           \<and> utxo_stats env = Inr (Some stats)
           \<and> block_index env (hashBlock stats) = Some tip
           \<and> complete_snapshot env = Some items
           \<and> effects = Fopen (AbsPathJoin env (arg @ ''.incomplete'')) # coordination_window
               @ map (Fwrite (AbsPathJoin env (arg @ ''.incomplete''))) items
               @ [Fclose (AbsPathJoin env (arg @ ''.incomplete'')),
                  Rename (AbsPathJoin env (arg @ ''.incomplete'')) (AbsPathJoin env arg)]
           \<and> r = \<lparr>coins_written = coins_count stats, base_hash = block_hash tip,
                  base_height = block_height tip, dump_path = Some (AbsPathJoin env arg)\<rparr>"
proof -
  let ?tmp = "AbsPathJoin env (arg @ ''.incomplete'')"
  let ?afile = "if fopen_ok env then Some ?tmp else None"
  let ?opened = "if fopen_ok env then [Fopen ?tmp] else []"
  have absent: "fs (AbsPathJoin env arg) = None"
    using assms by (auto simp: dumptxoutset_def Let_def split: if_splits)
  have nf: "node_found env"
    using assms absent by (auto simp: dumptxoutset_def Let_def split: if_splits)
  obtain res effs where c: "CreateUTXOSnapshot env ?afile = (res, effs)"
    by (cases "CreateUTXOSnapshot env ?afile")
  obtain r0 where r0: "res = Inr r0" "rename_ok env" "r = r0\<lparr>dump_path := Some (AbsPathJoin env arg)\<rparr>"
      "effects = ?opened @ effs @ [Rename ?tmp (AbsPathJoin env arg)]"
    using assms absent nf c
    by (cases res) (auto simp: dumptxoutset_def Let_def split: if_splits)
  obtain tmp' stats tip items where i: "?afile = Some tmp'" "utxo_stats env = Inr (Some stats)"
      "block_index env (hashBlock stats) = Some tip" "complete_snapshot env = Some items"
      "effs = coordination_window @ map (Fwrite tmp') items @ [Fclose tmp']"
      "r0 = \<lparr>coins_written = coins_count stats, base_hash = block_hash tip,
             base_height = block_height tip, dump_path = None\<rparr>"
    using CreateUTXOSnapshot_Inr [of env ?afile r0 effs] c r0(1) by auto
  have t: "fopen_ok env" "tmp' = ?tmp"
    using i(1) by (auto split: if_splits)
  show ?thesis
    using absent nf r0 i t by simp
qed

lemma fs_after_window: "fs_after fs coordination_window = fs"
  by (simp add: coordination_window_def fs_after_Cons fs_after_Nil)

lemma written_items_append: "written_items (es @ es') = written_items es @ written_items es'"
  by (induction es rule: written_items.induct) simp_all

lemma written_items_writes: "written_items (map (Fwrite p) items) = items"
  by (induction items) simp_all

lemma written_items_window: "written_items coordination_window = []"
  by (simp add: coordination_window_def)

lemma ex_dump_run:
  "dumptxoutset (ex_snapshot_env ex_one) Map.empty ''utxo.dat'' =
     (Inr \<lparr>coins_written = 5, base_hash = replicate 32 1, base_height = 10,
           dump_path = Some ''/data/utxo.dat''\<rparr>,
      [Fopen ''/data/utxo.dat.incomplete'',
       Lock_cs_main, ForceFlushStateToDisk, GetUTXOStats, Cursor, LookupBlockIndex, Unlock_cs_main,
       Fwrite ''/data/utxo.dat.incomplete'' (Metadata_item ex_metadata),
       Fwrite ''/data/utxo.dat.incomplete'' (OutPoint_item (ex_key 0)),
       Fwrite ''/data/utxo.dat.incomplete'' (Coin_item (ex_coin [1])),
       Fclose ''/data/utxo.dat.incomplete'',
       Rename ''/data/utxo.dat.incomplete'' ''/data/utxo.dat''])"
  by (simp add: dumptxoutset_def CreateUTXOSnapshot_def ex_snapshot_env_def ex_one_def ex_tip_def
      ex_metadata_def Let_def)

lemma ex_dump_interrupted:
  "dumptxoutset (ex_snapshot_env ex_one\<lparr>interruption := \<lambda>i. True\<rparr>) Map.empty ''utxo.dat'' =
     (Inl Interruption,
      [Fopen ''/data/utxo.dat.incomplete'',
       Lock_cs_main, ForceFlushStateToDisk, GetUTXOStats, Cursor, LookupBlockIndex, Unlock_cs_main,
       Fwrite ''/data/utxo.dat.incomplete'' (Metadata_item ex_metadata)])"
  by (simp add: dumptxoutset_def CreateUTXOSnapshot_def ex_snapshot_env_def ex_one_def ex_tip_def
      ex_metadata_def Let_def)

lemma coin_items_body: "length (filter is_coin_item (snapshot_body recs)) = length recs"
  by (induction recs) (auto simp: snapshot_body_def)

lemma dumptxoutset_written:
  assumes "dumptxoutset env fs arg = (Inr r, effects)"
  shows "\<exists>stats tip. utxo_stats env = Inr (Some stats)
           \<and> block_index env (hashBlock stats) = Some tip
           \<and> written_items effects =
               Metadata_item \<lparr>m_base_blockhash = block_hash tip, m_coins_count = coins_count stats,
                               m_nchaintx = nChainTx tip\<rparr>
               # snapshot_body (decodable (db_cursor env))
           \<and> coins_written r = coins_count stats"
proof -
  obtain stats tip items where i: "utxo_stats env = Inr (Some stats)"
      "block_index env (hashBlock stats) = Some tip" "complete_snapshot env = Some items"
      "effects = Fopen (AbsPathJoin env (arg @ ''.incomplete'')) # coordination_window
         @ map (Fwrite (AbsPathJoin env (arg @ ''.incomplete''))) items
         @ [Fclose (AbsPathJoin env (arg @ ''.incomplete'')),
            Rename (AbsPathJoin env (arg @ ''.incomplete'')) (AbsPathJoin env arg)]"
      "r = \<lparr>coins_written = coins_count stats, base_hash = block_hash tip,
            base_height = block_height tip, dump_path = Some (AbsPathJoin env arg)\<rparr>"
    using dumptxoutset_Inr [OF assms] by blast
  have "written_items effects = items"
    unfolding i(4) by (simp add: written_items_append written_items_writes written_items_window)
  moreover have "items = Metadata_item \<lparr>m_base_blockhash = block_hash tip,
      m_coins_count = coins_count stats, m_nchaintx = nChainTx tip\<rparr>
      # snapshot_body (decodable (db_cursor env))"
    using i(3) by (simp add: complete_snapshot_def i(1,2))
  ultimately show ?thesis
    using i(1,2,5) by simp
qed

lemma dumptxoutset_succeeds:
  assumes "fs (AbsPathJoin env arg) = None" "fopen_ok env" "node_found env" "rename_ok env"
    and "utxo_stats env = Inr (Some stats)" "block_index env (hashBlock stats) = Some tip"
    and "\<forall>j. \<not> interruption env j" "\<forall>k. \<not> write_fails env k"
  shows "\<exists>r effects. dumptxoutset env fs arg = (Inr r, effects)"
proof -
  obtain e writes where loop:
    "write_coins (interruption env) (write_fails env) (AbsPathJoin env (arg @ ''.incomplete''))
       (db_cursor env) 0 0 (Suc 0) = (e, writes)"
    by (cases "write_coins (interruption env) (write_fails env)
        (AbsPathJoin env (arg @ ''.incomplete'')) (db_cursor env) 0 0 (Suc 0)")
  have "e = None"
    using write_coins_succeeds [OF assms(7,8), of "AbsPathJoin env (arg @ ''.incomplete'')"
        "db_cursor env" 0 0 "Suc 0"] loop by simp
  then show ?thesis
    using assms loop by (simp add: dumptxoutset_def CreateUTXOSnapshot_def Let_def)
qed

section \<open>Exports at the same time, by cases\<close>

lemma export_step_Waiting:
  "th t = Waiting \<Longrightarrow>
     export_step req (d, th) t =
       (d, th(t := Running None 0 (snd (dumptxoutset (fst (req t)) (listing d) (snd (req t))))))"
  by (simp add: export_step_def)

lemma export_step_Running:
  "th t = Running h pos (e # es) \<Longrightarrow>
     export_step req (d, th) t =
       (case perform e (d, h, pos) of
          None \<Rightarrow> (d, th(t := Running h pos []))
        | Some (d', h', pos') \<Rightarrow> (d', th(t := Running h' pos' es)))"
  by (simp add: export_step_def)

lemma export_step_done:
  "th t = Running h pos [] \<Longrightarrow> export_step req (d, th) t = (d, th)"
  by (simp add: export_step_def)

lemma run_exports_Nil: "run_exports req [] s = s"
  by (simp add: run_exports_def)

lemma run_exports_Cons: "run_exports req (t # ts) s = run_exports req ts (export_step req s t)"
  by (simp add: run_exports_def)

lemma ex_earlier_log:
  "fs ''/data/utxo.dat'' = None \<Longrightarrow>
   snd (dumptxoutset (ex_export_env ex_single) fs ''utxo.dat'') =
      [Fopen ''/data/utxo.dat.incomplete'',
       Lock_cs_main, ForceFlushStateToDisk, GetUTXOStats, Cursor, LookupBlockIndex, Unlock_cs_main,
       Fwrite ''/data/utxo.dat.incomplete'' (Metadata_item ex_metadata),
       Fwrite ''/data/utxo.dat.incomplete'' (OutPoint_item (ex_key 0)),
       Fwrite ''/data/utxo.dat.incomplete'' (Coin_item (ex_coin [1])),
       Fclose ''/data/utxo.dat.incomplete'',
       Rename ''/data/utxo.dat.incomplete'' ''/data/utxo.dat'']"
  by (simp add: dumptxoutset_def CreateUTXOSnapshot_def ex_snapshot_env_def ex_single_def ex_tip_def
      ex_metadata_def ex_export_env_def prefixed_by_datadir_def is_absolute_def Let_def)

lemma ex_later_log:
  "fs ''/data/utxo.dat'' = None \<Longrightarrow>
   snd (dumptxoutset ex_later_env fs ''utxo.dat'') =
      [Fopen ''/data/utxo.dat.incomplete'',
       Lock_cs_main, ForceFlushStateToDisk, GetUTXOStats, Cursor, LookupBlockIndex, Unlock_cs_main,
       Fwrite ''/data/utxo.dat.incomplete'' (Metadata_item (ex_metadata\<lparr>m_coins_count := 0\<rparr>)),
       Fclose ''/data/utxo.dat.incomplete'',
       Rename ''/data/utxo.dat.incomplete'' ''/data/utxo.dat'']"
  by (simp add: dumptxoutset_def CreateUTXOSnapshot_def ex_snapshot_env_def ex_later_env_def ex_tip_def
      ex_metadata_def ex_export_env_def prefixed_by_datadir_def is_absolute_def Let_def)

lemma ex_other_log:
  "fs ''/tmp/other.dat'' = None \<Longrightarrow>
   snd (dumptxoutset ex_later_env fs ''/tmp/other.dat'') =
      [Fopen ''/tmp/other.dat.incomplete'',
       Lock_cs_main, ForceFlushStateToDisk, GetUTXOStats, Cursor, LookupBlockIndex, Unlock_cs_main,
       Fwrite ''/tmp/other.dat.incomplete'' (Metadata_item (ex_metadata\<lparr>m_coins_count := 0\<rparr>)),
       Fclose ''/tmp/other.dat.incomplete'',
       Rename ''/tmp/other.dat.incomplete'' ''/tmp/other.dat'']"
  by (simp add: dumptxoutset_def CreateUTXOSnapshot_def ex_snapshot_env_def ex_later_env_def ex_tip_def
      ex_metadata_def ex_export_env_def prefixed_by_datadir_def is_absolute_def Let_def)

lemma writes_to_touches_own: "writes_to tmp e \<Longrightarrow> touches_own tmp fin e"
  by (cases e) simp_all

lemma writes_to_no_rename: "writes_to tmp e \<Longrightarrow> \<not> is_rename e"
  by (cases e) simp_all

lemma window_no_file_effect: "list_all (\<lambda>e. \<not> file_effect e) coordination_window"
  by (simp add: coordination_window_def)

lemma no_file_effect_touches: "\<not> file_effect e \<Longrightarrow> touches_own tmp fin e"
  by (cases e) simp_all

lemma dumptxoutset_touches_own:
  "list_all (touches_own (temp_path env arg) (final_path env arg)) (snd (dumptxoutset env fs arg))"
proof (cases "dumptxoutset env fs arg")
  case (Pair res effects)
  show ?thesis
  proof (cases res)
    case (Inl e)
    have "writes_only_to (temp_path env arg) effects"
      using dumptxoutset_Inl [of env fs arg e effects] Pair Inl by (simp add: temp_path_def)
    then show ?thesis
      using Pair by (auto simp: writes_only_to_def list_all_iff writes_to_touches_own)
  next
    case (Inr r)
    obtain items where "effects = Fopen (temp_path env arg) # coordination_window
        @ map (Fwrite (temp_path env arg)) items
        @ [Fclose (temp_path env arg), Rename (temp_path env arg) (final_path env arg)]"
      using dumptxoutset_Inr [of env fs arg r effects] Pair Inr
      by (auto simp: temp_path_def final_path_def)
    then show ?thesis
      using Pair window_no_file_effect
      by (auto simp: list_all_iff no_file_effect_touches)
  qed
qed

lemma perform_sound:
  assumes "perform e (d, h, pos) = Some (d', h', pos')" "sound_disk d"
    and "\<forall>i. h = Some i \<longrightarrow> i < next_file d"
  shows "sound_disk d'" and "next_file d \<le> next_file d'" and "\<forall>i. h' = Some i \<longrightarrow> i < next_file d'"
proof -
  have "sound_disk d' \<and> next_file d \<le> next_file d' \<and> (\<forall>i. h' = Some i \<longrightarrow> i < next_file d')"
  proof (cases e)
    case (Fopen p)
    then show ?thesis
      using assms by (fastforce simp: sound_disk_def split: option.splits if_splits)
  next
    case (Fwrite p x)
    then show ?thesis
      using assms by (auto simp: sound_disk_def split: option.splits)
  next
    case (Fclose p)
    then show ?thesis
      using assms by (auto simp: sound_disk_def)
  next
    case (Rename a b)
    then show ?thesis
      using assms by (auto simp: sound_disk_def split: option.splits if_splits)
  qed (use assms in auto)
  then show "sound_disk d'" and "next_file d \<le> next_file d'" and "\<forall>i. h' = Some i \<longrightarrow> i < next_file d'"
    by simp_all
qed

text \<open>An effect on other paths leaves the paths in \<open>P\<close> and their files alone.\<close>

lemma perform_frame:
  assumes "perform e (d, h, pos) = Some (d', h', pos')" "touches_own a b e" "a \<notin> P" "b \<notin> P"
    and "sound_disk d" and "\<forall>i. h = Some i \<longrightarrow> (\<forall>p \<in> P. directory d p \<noteq> Some i)"
  shows "\<forall>p \<in> P. directory d' p = directory d p"
    and "\<forall>p \<in> P. \<forall>j. directory d p = Some j \<longrightarrow> file_contents d' j = file_contents d j"
    and "\<forall>i. h' = Some i \<longrightarrow> (\<forall>p \<in> P. directory d' p \<noteq> Some i)"
proof -
  have "(\<forall>p \<in> P. directory d' p = directory d p)
      \<and> (\<forall>p \<in> P. \<forall>j. directory d p = Some j \<longrightarrow> file_contents d' j = file_contents d j)
      \<and> (\<forall>i. h' = Some i \<longrightarrow> (\<forall>p \<in> P. directory d' p \<noteq> Some i))"
  proof (cases e)
    case (Fopen p)
    then show ?thesis
      using assms by (fastforce simp: sound_disk_def split: option.splits if_splits)
  next
    case (Fwrite p x)
    then show ?thesis
      using assms by (auto simp: sound_disk_def split: option.splits)
  next
    case (Fclose p)
    then show ?thesis
      using assms by auto
  next
    case (Rename a' b')
    then show ?thesis
      using assms by (auto simp: sound_disk_def split: option.splits if_splits)
  qed (use assms in auto)
  then show "\<forall>p \<in> P. directory d' p = directory d p"
    and "\<forall>p \<in> P. \<forall>j. directory d p = Some j \<longrightarrow> file_contents d' j = file_contents d j"
    and "\<forall>i. h' = Some i \<longrightarrow> (\<forall>p \<in> P. directory d' p \<noteq> Some i)"
    by blast+
qed


lemma export_stage_frame:
  assumes "directory d' fin = directory d fin" "directory d' tmp = directory d tmp"
    and "file_at d' fin = file_at d fin" "file_at d' tmp = file_at d tmp"
  shows "export_stage tmp fin whole d0 d' th = export_stage tmp fin whole d0 d th"
  by (cases th) (simp_all add: export_stage_def assms)

lemma export_stage_start:
  assumes "file_at d fin = file_at d0 fin" and that: "fin = final_path env arg"
  shows "export_stage (temp_path env arg) (final_path env arg) (complete_snapshot env) d0 d
           (Running None 0 (snd (dumptxoutset env (listing d) arg)))"
proof (cases "dumptxoutset env (listing d) arg")
  case (Pair res effects)
  show ?thesis
  proof (cases res)
    case (Inl e)
    have "writes_only_to (temp_path env arg) effects"
      using dumptxoutset_Inl [of env "listing d" arg e effects] Pair Inl by (simp add: temp_path_def)
    then have "list_all (\<lambda>e. \<not> is_rename e) effects"
      by (auto simp: writes_only_to_def list_all_iff writes_to_no_rename)
    then show ?thesis
      using assms that Pair by (simp add: export_stage_def)
  next
    case (Inr r)
    obtain items where i: "listing d (final_path env arg) = None" "complete_snapshot env = Some items"
        "effects = Fopen (temp_path env arg) # coordination_window
           @ map (Fwrite (temp_path env arg)) items
           @ [Fclose (temp_path env arg), Rename (temp_path env arg) (final_path env arg)]"
      using dumptxoutset_Inr [of env "listing d" arg r effects] Pair Inr
      by (auto simp: temp_path_def final_path_def)
    have "directory d (final_path env arg) = None"
      using i(1) by (simp add: listing_def)
    then show ?thesis
      using assms that Pair i(2,3) by (simp add: export_stage_def file_at_def)
  qed
qed


lemma perform_no_file_effect: "\<not> file_effect e \<Longrightarrow> perform e s = Some s"
  by (cases e; cases s) simp_all

lemma map_option_update_other:
  "m \<noteq> Some j \<Longrightarrow> map_option (f(j := xs)) m = map_option f m"
  by (cases m) auto

lemma export_stage_failingI:
  "file_at d fin = file_at d0 fin \<Longrightarrow> list_all (\<lambda>e. \<not> is_rename e) es
     \<Longrightarrow> h = None \<or> h \<noteq> directory d fin
     \<Longrightarrow> export_stage tmp fin whole d0 d (Running h pos es)"
  by (simp add: export_stage_def)

lemma export_stage_writingI:
  "file_at d0 fin = None \<Longrightarrow> directory d fin = None \<Longrightarrow> whole = Some (written @ rest)
     \<Longrightarrow> list_all (\<lambda>e. \<not> file_effect e) w
     \<Longrightarrow> es = w @ map (Fwrite tmp) rest @ [Fclose tmp, Rename tmp fin]
     \<Longrightarrow> h = Some i \<Longrightarrow> directory d tmp = Some i \<Longrightarrow> file_contents d i = map Some written
     \<Longrightarrow> pos = length written
     \<Longrightarrow> export_stage tmp fin whole d0 d (Running h pos es)"
  unfolding export_stage_def export_thread.case
  by (intro disjI2 disjI1 conjI exI [of _ "written @ rest"] exI [of _ w] exI [of _ written]
      exI [of _ rest]) (simp_all add: file_at_def)

lemma export_stage_closedI:
  "file_at d0 fin = None \<Longrightarrow> directory d fin = None \<Longrightarrow> whole = Some items
     \<Longrightarrow> file_at d tmp = Some (map Some items)
     \<Longrightarrow> export_stage tmp fin whole d0 d (Running h pos [Rename tmp fin])"
  by (simp add: export_stage_def)

lemma export_stage_publishedI:
  "file_at d0 fin = None \<Longrightarrow> whole = Some items \<Longrightarrow> file_at d fin = Some (map Some items)
     \<Longrightarrow> export_stage tmp fin whole d0 d (Running h pos [])"
  by (simp add: export_stage_def)

lemma export_stage_own_step:
  assumes stage: "export_stage tmp fin whole d0 d (Running h pos (e # es))"
    and sound: "sound_disk d" and ne: "tmp \<noteq> fin"
    and bound: "\<forall>i. h = Some i \<longrightarrow> i < next_file d"
    and own: "touches_own tmp fin e"
  shows "\<exists>d' h' pos'. perform e (d, h, pos) = Some (d', h', pos')
           \<and> export_stage tmp fin whole d0 d' (Running h' pos' es)"
proof -
  consider
    (failing) "file_at d fin = file_at d0 fin" "list_all (\<lambda>e. \<not> is_rename e) (e # es)"
      "h = None \<or> h \<noteq> directory d fin"
  | (unopened) items where "file_at d0 fin = None" "directory d fin = None" "whole = Some items"
      "e # es = Fopen tmp # coordination_window @ map (Fwrite tmp) items @ [Fclose tmp, Rename tmp fin]"
  | (writing) items w written rest where "file_at d0 fin = None" "directory d fin = None"
      "whole = Some items" "items = written @ rest" "list_all (\<lambda>e. \<not> file_effect e) w"
      "e # es = w @ map (Fwrite tmp) rest @ [Fclose tmp, Rename tmp fin]"
      "h \<noteq> None" "h = directory d tmp" "file_at d tmp = Some (map Some written)"
      "pos = length written"
  | (closed) items where "file_at d0 fin = None" "directory d fin = None" "whole = Some items"
      "e # es = [Rename tmp fin]" "file_at d tmp = Some (map Some items)"
    using stage unfolding export_stage_def export_thread.case
    by (elim disjE conjE exE) (blast | simp)+
  then show ?thesis
  proof cases
    case failing
    have nr: "\<not> is_rename e" and rest: "list_all (\<lambda>e. \<not> is_rename e) es"
      using failing(2) by simp_all
    have same: "\<exists>d' h' pos'. perform e (d, h, pos) = Some (d', h', pos')
        \<and> export_stage tmp fin whole d0 d' (Running h' pos' es)"
      if "perform e (d, h, pos) = Some (d', h', pos')" "file_at d' fin = file_at d fin"
        "h' = None \<or> h' \<noteq> directory d' fin" for d' h' pos'
      using that failing(1) rest by (auto intro: export_stage_failingI)
    show ?thesis
    proof (cases e)
      case (Fopen p)
      then have p: "p = tmp" using own by simp
      show ?thesis
      proof (cases "directory d tmp")
        case None
        have "directory d fin \<noteq> Some (next_file d)"
          using sound by (auto simp: sound_disk_def)
        then show ?thesis
          using None ne
          by (intro same [of "d\<lparr>directory := (directory d)(tmp \<mapsto> next_file d),
                  file_contents := (file_contents d)(next_file d := []),
                  next_file := Suc (next_file d)\<rparr>" "Some (next_file d)" 0])
            (auto simp: Fopen p file_at_def map_option_update_other)
      next
        case (Some j)
        have "directory d fin \<noteq> Some j"
          using sound Some ne by (auto simp: sound_disk_def)
        then show ?thesis
          using Some
          by (intro same [of "d\<lparr>file_contents := (file_contents d)(j := [])\<rparr>" "Some j" 0])
            (auto simp: Fopen p file_at_def map_option_update_other)
      qed
    next
      case (Fwrite p x)
      show ?thesis
      proof (cases h)
        case None
        then show ?thesis
          by (intro same [of d h pos]) (simp_all add: Fwrite)
      next
        case (Some i)
        then have "directory d fin \<noteq> Some i"
          using failing(3) by auto
        then show ?thesis
          using Some
          by (intro same [of "d\<lparr>file_contents := (file_contents d)(i := write_at pos x (file_contents d i))\<rparr>"
                h "Suc pos"])
            (auto simp: Fwrite file_at_def map_option_update_other)
      qed
    next
      case (Fclose p)
      then show ?thesis
        by (intro same [of d None 0]) simp_all
    next
      case (Rename a b)
      then show ?thesis using nr by simp
    next
      case Lock_cs_main
      then show ?thesis using failing(3) by (intro same [of d h pos]) simp_all
    next
      case ForceFlushStateToDisk
      then show ?thesis using failing(3) by (intro same [of d h pos]) simp_all
    next
      case GetUTXOStats
      then show ?thesis using failing(3) by (intro same [of d h pos]) simp_all
    next
      case Cursor
      then show ?thesis using failing(3) by (intro same [of d h pos]) simp_all
    next
      case LookupBlockIndex
      then show ?thesis using failing(3) by (intro same [of d h pos]) simp_all
    next
      case Unlock_cs_main
      then show ?thesis using failing(3) by (intro same [of d h pos]) simp_all
    qed
  next
    case unopened
    have e: "e = Fopen tmp"
      and es: "es = coordination_window @ map (Fwrite tmp) items @ [Fclose tmp, Rename tmp fin]"
      using unopened(4) by simp_all
    have w: "list_all (\<lambda>e. \<not> file_effect e) coordination_window"
      by (rule window_no_file_effect)
    show ?thesis
    proof (cases "directory d tmp")
      case None
      let ?d' = "d\<lparr>directory := (directory d)(tmp \<mapsto> next_file d),
                  file_contents := (file_contents d)(next_file d := []),
                  next_file := Suc (next_file d)\<rparr>"
      have p: "perform e (d, h, pos) = Some (?d', Some (next_file d), 0)"
        using None by (simp add: e)
      have "export_stage tmp fin whole d0 ?d' (Running (Some (next_file d)) 0 es)"
        using unopened(1,2,3) ne w es
        by (intro export_stage_writingI [where written = "[]" and rest = items
              and w = coordination_window and i = "next_file d"]) simp_all
      then show ?thesis
        using p by simp
    next
      case (Some j)
      let ?d' = "d\<lparr>file_contents := (file_contents d)(j := [])\<rparr>"
      have p: "perform e (d, h, pos) = Some (?d', Some j, 0)"
        using Some by (simp add: e)
      have "export_stage tmp fin whole d0 ?d' (Running (Some j) 0 es)"
        using unopened(1,2,3) ne w es Some
        by (intro export_stage_writingI [where written = "[]" and rest = items
              and w = coordination_window and i = j]) simp_all
      then show ?thesis
        using p by simp
    qed
  next
    case writing
    obtain i where i: "h = Some i" "directory d tmp = Some i" "file_contents d i = map Some written"
      using writing(7,8,9) by (auto simp: file_at_def)
    show ?thesis
    proof (cases w)
      case (Cons e' w')
      then have e: "e = e'" and es: "es = w' @ map (Fwrite tmp) rest @ [Fclose tmp, Rename tmp fin]"
        using writing(6) by simp_all
      have nf: "\<not> file_effect e" and w': "list_all (\<lambda>e. \<not> file_effect e) w'"
        using writing(5) Cons e by simp_all
      have p: "perform e (d, h, pos) = Some (d, h, pos)"
        using nf by (rule perform_no_file_effect)
      have "export_stage tmp fin whole d0 d (Running h pos es)"
        using writing(1,2,3,4,10) w' es i
        by (intro export_stage_writingI [where written = written and rest = rest
              and w = w' and i = i]) simp_all
      then show ?thesis
        using p by simp
    next
      case Nil
      show ?thesis
      proof (cases rest)
        case (Cons x rest')
        then have e: "e = Fwrite tmp x" and es: "es = map (Fwrite tmp) rest' @ [Fclose tmp, Rename tmp fin]"
          using writing(6) Nil by simp_all
        let ?d' = "d\<lparr>file_contents := (file_contents d)(i := map Some (written @ [x]))\<rparr>"
        have p: "perform e (d, h, pos) = Some (?d', h, Suc pos)"
          using i writing(10) by (simp add: e write_at_def)
        have "export_stage tmp fin whole d0 ?d' (Running h (Suc pos) es)"
          using writing(1,2,3,4,10) i es Cons
          by (intro export_stage_writingI [where written = "written @ [x]" and rest = rest'
                and w = "[]" and i = i]) simp_all
        then show ?thesis
          using p by simp
      next
        case rest_Nil: Nil
        then have e: "e = Fclose tmp" and es: "es = [Rename tmp fin]"
          using writing(6) Nil by simp_all
        have p: "perform e (d, h, pos) = Some (d, None, 0)"
          by (simp add: e)
        have "export_stage tmp fin whole d0 d (Running None 0 es)"
          unfolding es using writing(1,2,3,4,9) rest_Nil
          by (intro export_stage_closedI [where items = items]) simp_all
        then show ?thesis
          using p by simp
      qed
    qed
  next
    case closed
    then have e: "e = Rename tmp fin" and es: "es = []"
      by simp_all
    obtain i where i: "directory d tmp = Some i" "file_contents d i = map Some items"
      using closed(5) by (auto simp: file_at_def)
    let ?d' = "d\<lparr>directory := ((directory d)(tmp := None))(fin \<mapsto> i)\<rparr>"
    have p: "perform e (d, h, pos) = Some (?d', h, pos)"
      using i by (simp add: e)
    have "export_stage tmp fin whole d0 ?d' (Running h pos es)"
      unfolding es using closed(1,3) i
      by (intro export_stage_publishedI [where items = items]) (simp_all add: file_at_def)
    then show ?thesis
      using p by simp
  qed
qed


lemma perform_own_names:
  assumes "perform e (d, h, pos) = Some (d', h', pos')" "touches_own tmp fin e"
    and "directory d' p = Some i" "p = tmp \<or> p = fin"
  shows "directory d tmp = Some i \<or> directory d fin = Some i \<or> i = next_file d"
  using assms by (cases e) (auto split: option.splits if_splits)

lemma file_at_frame:
  assumes "directory d' p = directory d p"
    and "\<forall>j. directory d p = Some j \<longrightarrow> file_contents d' j = file_contents d j"
  shows "file_at d' p = file_at d p"
  using assms by (cases "directory d p") (simp_all add: file_at_def)

lemma export_inv_step:
  assumes inv: "export_inv req t d0 s" and und: "undisturbed req t"
    and ne: "temp_path (fst (req t)) (snd (req t)) \<noteq> final_path (fst (req t)) (snd (req t))"
  shows "export_inv req t d0 (export_step req s u)"
proof -
  obtain d th where s: "s = (d, th)" by (cases s)
  let ?tmp = "\<lambda>v. temp_path (fst (req v)) (snd (req v))"
  let ?fin = "\<lambda>v. final_path (fst (req v)) (snd (req v))"
  let ?whole = "complete_snapshot (fst (req t))"
  have A: "sound_disk d"
    and B: "\<And>v i pos es. th v = Running (Some i) pos es \<Longrightarrow> i < next_file d"
    and C: "\<And>v h pos es. th v = Running h pos es \<Longrightarrow> list_all (touches_own (?tmp v) (?fin v)) es"
    and D: "\<And>v i pos es p. v \<noteq> t \<Longrightarrow> th v = Running (Some i) pos es \<Longrightarrow> p \<in> own_paths req t
              \<Longrightarrow> directory d p \<noteq> Some i"
    and E: "export_stage (?tmp t) (?fin t) ?whole d0 d (th t)"
    using inv unfolding s export_inv_def by (simp, blast+)
  have P: "own_paths req t = {?tmp t, ?fin t}"
    by (simp add: own_paths_def)
  show ?thesis
  proof (cases "th u")
    case Waiting
    let ?log = "snd (dumptxoutset (fst (req u)) (listing d) (snd (req u)))"
    let ?th = "th(u := Running None 0 ?log)"
    have step: "export_step req s u = (d, ?th)"
      by (simp add: s export_step_Waiting Waiting)
    have B': "i < next_file d" if "?th v = Running (Some i) pos es" for v i pos es
      using that B [of v i pos es] by (cases "v = u") simp_all
    have C': "list_all (touches_own (?tmp v) (?fin v)) es" if "?th v = Running h pos es" for v h pos es
      using that C [of v h pos es] dumptxoutset_touches_own [of "fst (req u)" "snd (req u)" "listing d"]
      by (cases "v = u") auto
    have D': "directory d p \<noteq> Some i"
      if "v \<noteq> t" "?th v = Running (Some i) pos es" "p \<in> own_paths req t" for v i pos es p
      using that D [of v i pos es p] by (cases "v = u") simp_all
    have E': "export_stage (?tmp t) (?fin t) ?whole d0 d (?th t)"
    proof (cases "u = t")
      case True
      have "file_at d (?fin t) = file_at d0 (?fin t)"
        using E Waiting True by (simp add: export_stage_def)
      from export_stage_start [OF this refl]
      show ?thesis
        using True by simp
    next
      case False
      then show ?thesis using E by simp
    qed
    show ?thesis
      unfolding step export_inv_def prod.case
      using A B' C' D' E' by blast
  next
    case (Running h pos es0)
    show ?thesis
    proof (cases es0)
      case Nil
      then have "export_step req s u = s"
        by (simp add: s export_step_done Running)
      then show ?thesis using inv by simp
    next
      case (Cons e es)
      have thu: "th u = Running h pos (e # es)"
        using Running Cons by simp
      have own: "touches_own (?tmp u) (?fin u) e" and tail: "list_all (touches_own (?tmp u) (?fin u)) es"
        using C [OF thu] by simp_all
      have bound: "\<forall>i. h = Some i \<longrightarrow> i < next_file d"
        using B thu by blast
      show ?thesis
      proof (cases "perform e (d, h, pos)")
        case None
        let ?th = "th(u := Running h pos [])"
        have step: "export_step req s u = (d, ?th)"
          by (simp add: s export_step_Running thu None)
        have "u \<noteq> t"
        proof
          assume "u = t"
          then obtain d' h' pos' where "perform e (d, h, pos) = Some (d', h', pos')"
            using export_stage_own_step [OF _ A ne bound, of ?whole d0 pos e es] E thu own by auto
          then show False using None by simp
        qed
        have B': "i < next_file d" if "?th v = Running (Some i) pos' es'" for v i pos' es'
          using that B [of v i pos' es'] bound by (cases "v = u") simp_all
        have C': "list_all (touches_own (?tmp v) (?fin v)) es'" if "?th v = Running h' pos' es'"
          for v h' pos' es'
          using that C [of v h' pos' es'] by (cases "v = u") auto
        have D': "directory d p \<noteq> Some i"
          if "v \<noteq> t" "?th v = Running (Some i) pos' es'" "p \<in> own_paths req t" for v i pos' es' p
          using that D [of v i pos' es' p] D [of u i pos "e # es" p] thu by (cases "v = u") auto
        have E': "export_stage (?tmp t) (?fin t) ?whole d0 d (?th t)"
          using E \<open>u \<noteq> t\<close> by simp
        show ?thesis
          unfolding step export_inv_def prod.case
          using A B' C' D' E' by blast
      next
        case (Some r)
        obtain d' h' pos' where r: "r = (d', h', pos')" by (cases r)
        have p: "perform e (d, h, pos) = Some (d', h', pos')"
          using Some r by simp
        let ?th = "th(u := Running h' pos' es)"
        have step: "export_step req s u = (d', ?th)"
          by (simp add: s export_step_Running thu p)
        note ps = perform_sound [OF p A bound]
        have A': "sound_disk d'" by (rule ps(1))
        have B': "i < next_file d'" if "?th v = Running (Some i) pos'' es'" for v i pos'' es'
        proof (cases "v = u")
          case True
          then show ?thesis using that ps(3) by simp
        next
          case False
          then have "i < next_file d" using that B [of v i pos'' es'] by simp
          then show ?thesis using ps(2) by simp
        qed
        have C': "list_all (touches_own (?tmp v) (?fin v)) es'" if "?th v = Running h'' pos'' es'"
          for v h'' pos'' es'
          using that C [of v h'' pos'' es'] tail by (cases "v = u") auto
        show ?thesis
        proof (cases "u = t")
          case True
          obtain d1 h1 pos1 where o: "perform e (d, h, pos) = Some (d1, h1, pos1)"
              "export_stage (?tmp t) (?fin t) ?whole d0 d1 (Running h1 pos1 es)"
            using export_stage_own_step [OF _ A ne bound, of ?whole d0 pos e es] E thu own True by auto
          have E': "export_stage (?tmp t) (?fin t) ?whole d0 d' (?th t)"
            using o p True by simp
          have D': "directory d' q \<noteq> Some i"
            if "v \<noteq> t" "?th v = Running (Some i) pos'' es'" "q \<in> own_paths req t" for v i pos'' es' q
          proof
            assume named: "directory d' q = Some i"
            have v: "th v = Running (Some i) pos'' es'"
              using that(1,2) True by simp
            have "q = ?tmp t \<or> q = ?fin t"
              using that(3) P by simp
            from perform_own_names [OF p _ named this] own True
            have "directory d (?tmp t) = Some i \<or> directory d (?fin t) = Some i \<or> i = next_file d"
              by simp
            moreover have "directory d (?tmp t) \<noteq> Some i" "directory d (?fin t) \<noteq> Some i"
              using D [OF that(1) v] P by simp_all
            moreover have "i < next_file d"
              using B [OF v] .
            ultimately show False by simp
          qed
          show ?thesis
            unfolding step export_inv_def prod.case
            using A' B' C' D' E' by blast
        next
          case False
          have apart: "?tmp u \<notin> own_paths req t" "?fin u \<notin> own_paths req t"
            using und False by (auto simp: undisturbed_def own_paths_def)
          have hfree: "\<forall>i. h = Some i \<longrightarrow> (\<forall>q \<in> own_paths req t. directory d q \<noteq> Some i)"
            using D [OF False] thu by auto
          note fr = perform_frame [OF p own apart A hfree]
          have D': "directory d' q \<noteq> Some i"
            if "v \<noteq> t" "?th v = Running (Some i) pos'' es'" "q \<in> own_paths req t" for v i pos'' es' q
          proof (cases "v = u")
            case True
            then show ?thesis using that fr(3) by simp
          next
            case vu: False
            then have "directory d q \<noteq> Some i"
              using that D [of v i pos'' es' q] by simp
            then show ?thesis using fr(1) that(3) by simp
          qed
          have "file_at d' (?fin t) = file_at d (?fin t)" "file_at d' (?tmp t) = file_at d (?tmp t)"
            using fr(1,2) P by (auto intro!: file_at_frame)
          moreover have "directory d' (?fin t) = directory d (?fin t)"
            "directory d' (?tmp t) = directory d (?tmp t)"
            using fr(1) P by simp_all
          ultimately have "export_stage (?tmp t) (?fin t) ?whole d0 d' (th t) =
              export_stage (?tmp t) (?fin t) ?whole d0 d (th t)"
            by (intro export_stage_frame)
          then have E': "export_stage (?tmp t) (?fin t) ?whole d0 d' (?th t)"
            using E False by simp
          show ?thesis
            unfolding step export_inv_def prod.case
            using A' B' C' D' E' by blast
        qed
      qed
    qed
  qed
qed


lemma export_inv_start: "sound_disk d0 \<Longrightarrow> export_inv req t d0 (d0, \<lambda>u. Waiting)"
  by (simp add: export_inv_def export_stage_def)

lemma export_inv_run:
  assumes "export_inv req t d0 s" "undisturbed req t"
    and "temp_path (fst (req t)) (snd (req t)) \<noteq> final_path (fst (req t)) (snd (req t))"
  shows "export_inv req t d0 (run_exports req schedule s)"
  using assms(1)
proof (induction schedule arbitrary: s)
  case Nil
  then show ?case by (simp add: run_exports_Nil)
next
  case (Cons u schedule)
  show ?case
    unfolding run_exports_Cons
    by (rule Cons.IH) (rule export_inv_step [OF Cons.prems assms(2,3)])
qed

lemma export_stage_final:
  assumes "export_stage tmp fin whole d0 d th"
  shows "file_at d fin = file_at d0 fin
       \<or> (file_at d0 fin = None \<and> (\<exists>h pos. th = Running h pos []) \<and> whole \<noteq> None
           \<and> file_at d fin = map_option (map Some) whole)"
proof (cases th)
  case Waiting
  then show ?thesis using assms by (simp add: export_stage_def)
next
  case (Running h pos es)
  show ?thesis
    using assms unfolding export_stage_def Running export_thread.case
    by (elim disjE conjE exE) (simp_all add: file_at_def)
qed

lemma temp_path_distinct:
  assumes "AbsPathJoin env = prefixed_by_datadir datadir"
  shows "temp_path env arg \<noteq> final_path env arg"
proof -
  have "is_absolute (arg @ ''.incomplete'') = is_absolute arg"
    by (cases arg) (simp_all add: is_absolute_def)
  then show ?thesis
    by (simp add: temp_path_def final_path_def assms prefixed_by_datadir_def)
qed

lemma undisturbed_export:
  assumes "temp_path env arg \<noteq> final_path env arg"
    and "req t = (env, arg)" and "undisturbed req t" and "sound_disk d0"
  shows "case run_exports req schedule (d0, \<lambda>u. Waiting) of
      (d, th) \<Rightarrow>
        file_at d (final_path env arg) = file_at d0 (final_path env arg)
        \<or> (file_at d0 (final_path env arg) = None
            \<and> (\<exists>h pos. th t = Running h pos [])
            \<and> complete_snapshot env \<noteq> None
            \<and> file_at d (final_path env arg) = map_option (map Some) (complete_snapshot env))"
proof -
  obtain d th where run: "run_exports req schedule (d0, \<lambda>u. Waiting) = (d, th)"
    by (cases "run_exports req schedule (d0, \<lambda>u. Waiting)")
  have ne: "temp_path (fst (req t)) (snd (req t)) \<noteq> final_path (fst (req t)) (snd (req t))"
    using assms(1,2) by simp
  have "export_inv req t d0 (d, th)"
    using export_inv_run [OF export_inv_start [OF assms(4)] assms(3) ne, of schedule] run by simp
  then have "export_stage (temp_path env arg) (final_path env arg) (complete_snapshot env) d0 d (th t)"
    using assms(2) by (simp add: export_inv_def)
  from export_stage_final [OF this] show ?thesis
    by (simp add: run)
qed

section \<open>One scan at a time\<close>




lemma reserve_from_idle:
  "idle g \<Longrightarrow> reserve False g = (Inr True, True, g\<lparr>g_scan_in_progress := True\<rparr>)"
  by (simp add: reserve_def idle_def Let_def)









lemma step_other_thread:
  assumes "step kind t (g, ph) (g', ph')" "u \<noteq> t"
  shows "ph' u = ph u"
  using assms by (cases rule: step.cases) auto

lemma reserve_in_two_steps:
  assumes "idle g" "ph t = Before_reserve"
  shows "step kind t (g, ph) (g\<lparr>g_scan_in_progress := True\<rparr>, ph(t := After_exchange))
       \<and> step kind t (g\<lparr>g_scan_in_progress := True\<rparr>, ph(t := After_exchange))
            (snd (snd (reserve False g)), ph(t := Reserved))"
proof -
  have 1: "step kind t (g, ph) (g\<lparr>g_scan_in_progress := True\<rparr>, ph(t := After_exchange))"
    using assms by (intro step.exchange_false) (simp_all add: idle_def)
  have "step kind t (g\<lparr>g_scan_in_progress := True\<rparr>, ph(t := After_exchange))
      (g\<lparr>g_scan_in_progress := True\<rparr>, (ph(t := After_exchange))(t := Reserved))"
    using assms by (intro step.check_passes) (simp_all add: idle_def)
  then show ?thesis
    using 1 assms(1) by (simp add: reserve_from_idle)
qed

lemma release_in_two_steps:
  assumes "ph t = Reserved"
  shows "step kind t (g, ph) (g\<lparr>g_scan_in_progress := False\<rparr>, ph(t := Destructor_mid))
       \<and> step kind t (g\<lparr>g_scan_in_progress := False\<rparr>, ph(t := Destructor_mid))
            (release True g, ph(t := Finished))"
proof -
  have 1: "step kind t (g, ph) (g\<lparr>g_scan_in_progress := False\<rparr>, ph(t := Destructor_mid))"
    using assms by (rule step.destructor_first)
  have "step kind t (g\<lparr>g_scan_in_progress := False\<rparr>, ph(t := Destructor_mid))
      (g\<lparr>g_scan_in_progress := False\<rparr>\<lparr>g_scan_progress := 0\<rparr>, (ph(t := Destructor_mid))(t := Finished))"
    by (rule step.destructor_second) simp
  then show ?thesis
    using 1 by (simp add: release_def)
qed




section \<open>The export and its destination\<close>

text \<open>
  C8.  An export whose destination exists is rejected with \<open>RPC_INVALID_PARAMETER\<close> and
  has no effect at all: no file is opened, \<open>cs_main\<close> is not taken, nothing is flushed, no
  statistics are computed and no cursor is obtained; the file system is as before.
\<close>

theorem existing_path_rejected:
  assumes "fs (final_path env arg) \<noteq> None"
  shows "dumptxoutset env fs arg = (Inl RPC_INVALID_PARAMETER, [])
       \<and> fs_after fs (snd (dumptxoutset env fs arg)) = fs"
  using assms by (simp add: final_path_def dumptxoutset_rejects fs_after_Nil)

theorem existing_path_rejected_witness:
  "dumptxoutset (ex_snapshot_env []) [''/data/utxo.dat'' \<mapsto> []] ''utxo.dat'' = (Inl RPC_INVALID_PARAMETER, [])
   \<and> fs_after [''/data/utxo.dat'' \<mapsto> []]
        (snd (dumptxoutset (ex_snapshot_env []) [''/data/utxo.dat'' \<mapsto> []] ''utxo.dat''))
      = [''/data/utxo.dat'' \<mapsto> []]"
  using existing_path_rejected [of "[''/data/utxo.dat'' \<mapsto> []]" "ex_snapshot_env []" "''utxo.dat''"]
  by (auto simp: final_path_def ex_snapshot_env_def fs_after_Nil)

text \<open>
  One export taken alone, by its list of effects.  An export that fails, for whatever
  reason and wherever, opens and writes the temporary path only, never renames, and after
  each of its effects the final path holds what it held before.  An export that succeeds
  finds the final path absent, leaves it absent after every effect but the last, and its
  last effect is the rename that puts the complete snapshot there.
\<close>

lemma export_alone:
  assumes "temp_path env arg \<noteq> final_path env arg"
  shows "case dumptxoutset env fs arg of
      (Inl e, effects) \<Rightarrow>
        writes_only_to (temp_path env arg) effects
        \<and> (\<forall>k. fs_after fs (take k effects) (final_path env arg) = fs (final_path env arg))
    | (Inr r, effects) \<Rightarrow>
        fs (final_path env arg) = None
        \<and> effects \<noteq> []
        \<and> last effects = Rename (temp_path env arg) (final_path env arg)
        \<and> writes_only_to (temp_path env arg) (butlast effects)
        \<and> (\<forall>k < length effects. fs_after fs (take k effects) (final_path env arg) = None)
        \<and> fs_after fs effects (final_path env arg) = complete_snapshot env
        \<and> complete_snapshot env \<noteq> None"
proof -
  let ?tmp = "temp_path env arg" and ?path = "final_path env arg"
  have distinct: "?tmp \<noteq> ?path"
    using assms .
  obtain res effects where run: "dumptxoutset env fs arg = (res, effects)"
    by (cases "dumptxoutset env fs arg")
  have "case res of
      Inl e \<Rightarrow> writes_only_to ?tmp effects
                \<and> (\<forall>k. fs_after fs (take k effects) ?path = fs ?path)
    | Inr r \<Rightarrow> fs ?path = None \<and> effects \<noteq> [] \<and> last effects = Rename ?tmp ?path
                \<and> writes_only_to ?tmp (butlast effects)
                \<and> (\<forall>k < length effects. fs_after fs (take k effects) ?path = None)
                \<and> fs_after fs effects ?path = complete_snapshot env
                \<and> complete_snapshot env \<noteq> None"
  proof (cases res)
    case (Inl e)
    have w: "writes_only_to ?tmp effects"
      using dumptxoutset_Inl [of env fs arg e effects] run Inl by (simp add: temp_path_def)
    have "fs_after fs (take k effects) ?path = fs ?path" for k
      using fs_after_other [OF writes_only_to_take [OF w]] distinct by simp
    then show ?thesis
      using w Inl by simp
  next
    case (Inr r)
    obtain items where i: "fs ?path = None" "complete_snapshot env = Some items"
        "effects = Fopen ?tmp # coordination_window @ map (Fwrite ?tmp) items
           @ [Fclose ?tmp, Rename ?tmp ?path]"
      using dumptxoutset_Inr [of env fs arg r effects] run Inr
      by (auto simp: temp_path_def final_path_def)
    define before where
      "before = Fopen ?tmp # coordination_window @ map (Fwrite ?tmp) items @ [Fclose ?tmp]"
    have e: "effects = before @ [Rename ?tmp ?path]"
      by (simp add: i(3) before_def)
    have w: "writes_only_to ?tmp before"
      using writes_only_to_window [of ?tmp] writes_only_to_writes [of ?tmp items]
      by (simp add: writes_only_to_def before_def)
    have prefix: "fs_after fs (take k effects) ?path = None" if "k < length effects" for k
    proof -
      have "k \<le> length before"
        using that by (simp add: e)
      then have "take k effects = take k before"
        by (simp add: e)
      then show ?thesis
        using fs_after_other [OF writes_only_to_take [OF w, of k], of ?path fs] distinct i(1) by simp
    qed
    have "fs_after fs before ?tmp = Some items"
    proof -
      have "fs_after fs before =
          fs_after (fs_after (fs_after (fs(?tmp \<mapsto> [])) coordination_window) (map (Fwrite ?tmp) items)) [Fclose ?tmp]"
        by (simp add: before_def fs_after_Cons fs_after_append)
      also have "\<dots> = fs_after (fs(?tmp \<mapsto> [])) (map (Fwrite ?tmp) items)"
        by (simp add: fs_after_window fs_after_Cons fs_after_Nil)
      also have "\<dots> = (fs(?tmp \<mapsto> []))(?tmp \<mapsto> [] @ items)"
        by (rule fs_after_writes) simp
      finally show ?thesis by simp
    qed
    then have final: "fs_after fs effects ?path = Some items"
      unfolding e by (simp add: fs_after_append fs_after_Cons fs_after_Nil)
    show ?thesis
      using Inr i(1,2) e w prefix final by simp
  qed
  then show ?thesis
    by (simp add: run split: sum.splits)
qed


lemma ex_export_run:
  "dumptxoutset (ex_export_env ex_single) Map.empty ''utxo.dat'' =
     (Inr \<lparr>coins_written = 5, base_hash = replicate 32 1, base_height = 10,
           dump_path = Some ''/data/utxo.dat''\<rparr>,
      [Fopen ''/data/utxo.dat.incomplete'',
       Lock_cs_main, ForceFlushStateToDisk, GetUTXOStats, Cursor, LookupBlockIndex, Unlock_cs_main,
       Fwrite ''/data/utxo.dat.incomplete'' (Metadata_item ex_metadata),
       Fwrite ''/data/utxo.dat.incomplete'' (OutPoint_item (ex_key 0)),
       Fwrite ''/data/utxo.dat.incomplete'' (Coin_item (ex_coin [1])),
       Fclose ''/data/utxo.dat.incomplete'',
       Rename ''/data/utxo.dat.incomplete'' ''/data/utxo.dat''])"
  by (simp add: dumptxoutset_def CreateUTXOSnapshot_def ex_snapshot_env_def ex_single_def ex_tip_def
      ex_metadata_def ex_export_env_def prefixed_by_datadir_def is_absolute_def Let_def)

lemma ex_export_interrupted:
  "dumptxoutset (ex_export_env ex_single\<lparr>interruption := \<lambda>i. True\<rparr>) Map.empty ''utxo.dat'' =
     (Inl Interruption,
      [Fopen ''/data/utxo.dat.incomplete'',
       Lock_cs_main, ForceFlushStateToDisk, GetUTXOStats, Cursor, LookupBlockIndex, Unlock_cs_main,
       Fwrite ''/data/utxo.dat.incomplete'' (Metadata_item ex_metadata)])"
  by (simp add: dumptxoutset_def CreateUTXOSnapshot_def ex_snapshot_env_def ex_single_def ex_tip_def
      ex_metadata_def ex_export_env_def prefixed_by_datadir_def is_absolute_def Let_def)

lemma ex_apart_undisturbed:
  "AbsPathJoin env = prefixed_by_datadir ''/data'' \<Longrightarrow> undisturbed (ex_apart env) 0"
  by (simp add: undisturbed_def own_paths_def ex_apart_def ex_later_env_def ex_export_env_def
      temp_path_def final_path_def prefixed_by_datadir_def is_absolute_def)

lemma sound_empty_disk: "sound_disk empty_disk"
  by (simp add: sound_disk_def empty_disk_def)

text \<open>
  C3 (as amended).  The join of the help text gives a temporary path that differs from
  the final one.  Taken alone, an export writes only the temporary path; when it fails it
  never renames and the final path holds what it held, after each of its effects; when it
  succeeds the final path is absent until the last effect, the rename, which puts the
  complete snapshot there.  And in every run of exports at the same time, whatever the
  schedule, an export whose two paths no other export uses leaves the final path as it
  was at the start, or has finished and the final path names the complete snapshot:
  nothing in between is ever there.
\<close>

theorem final_path_never_partial:
  assumes "AbsPathJoin env = prefixed_by_datadir datadir"
    and "req t = (env, arg)" and "undisturbed req t" and "sound_disk d0"
  shows "temp_path env arg \<noteq> final_path env arg
       \<and> (case dumptxoutset env fs arg of
            (Inl e, effects) \<Rightarrow>
              writes_only_to (temp_path env arg) effects
              \<and> (\<forall>k. fs_after fs (take k effects) (final_path env arg) = fs (final_path env arg))
          | (Inr r, effects) \<Rightarrow>
              fs (final_path env arg) = None
              \<and> effects \<noteq> []
              \<and> last effects = Rename (temp_path env arg) (final_path env arg)
              \<and> writes_only_to (temp_path env arg) (butlast effects)
              \<and> (\<forall>k < length effects. fs_after fs (take k effects) (final_path env arg) = None)
              \<and> fs_after fs effects (final_path env arg) = complete_snapshot env
              \<and> complete_snapshot env \<noteq> None)
       \<and> (case run_exports req schedule (d0, \<lambda>u. Waiting) of
            (d, th) \<Rightarrow>
              file_at d (final_path env arg) = file_at d0 (final_path env arg)
              \<or> (file_at d0 (final_path env arg) = None
                  \<and> (\<exists>h pos. th t = Running h pos [])
                  \<and> complete_snapshot env \<noteq> None
                  \<and> file_at d (final_path env arg) = map_option (map Some) (complete_snapshot env)))"
proof -
  have distinct: "temp_path env arg \<noteq> final_path env arg"
    using assms(1) by (rule temp_path_distinct)
  show ?thesis
    using distinct export_alone [OF distinct, of fs]
      undisturbed_export [OF distinct assms(2,3,4), of schedule]
    by simp
qed

theorem final_path_never_partial_witness:
  "temp_path (ex_export_env ex_single) ''utxo.dat'' \<noteq> final_path (ex_export_env ex_single) ''utxo.dat''
   \<and> (case dumptxoutset (ex_export_env ex_single) Map.empty ''utxo.dat'' of
        (Inl e, effects) \<Rightarrow> False
      | (Inr r, effects) \<Rightarrow>
          (\<forall>k < length effects.
              fs_after Map.empty (take k effects) (final_path (ex_export_env ex_single) ''utxo.dat'') = None)
          \<and> fs_after Map.empty effects (final_path (ex_export_env ex_single) ''utxo.dat'')
              = Some [Metadata_item ex_metadata, OutPoint_item (ex_key 0), Coin_item (ex_coin [1])])
   \<and> (case dumptxoutset (ex_export_env ex_single\<lparr>interruption := \<lambda>i. True\<rparr>) Map.empty ''utxo.dat'' of
        (Inl e, effects) \<Rightarrow>
          \<forall>k. fs_after Map.empty (take k effects)
                (final_path (ex_export_env ex_single\<lparr>interruption := \<lambda>i. True\<rparr>) ''utxo.dat'') = None
      | (Inr r, effects) \<Rightarrow> False)
   \<and> file_at (fst (run_exports (ex_apart (ex_export_env ex_single))
         [0, 1, 0, 1, 0, 0, 0, 0, 0, 0, 0, 1, 0, 0, 0] (empty_disk, \<lambda>u. Waiting))) ''/data/utxo.dat''
       = None
   \<and> file_at (fst (run_exports (ex_apart (ex_export_env ex_single))
         [0, 1, 0, 1, 0, 0, 0, 0, 0, 0, 0, 1, 0, 0, 0, 0] (empty_disk, \<lambda>u. Waiting))) ''/data/utxo.dat''
       = Some [Some (Metadata_item ex_metadata), Some (OutPoint_item (ex_key 0)),
               Some (Coin_item (ex_coin [1]))]"
proof -
  let ?E = "ex_export_env ex_single" and ?E' = "ex_export_env ex_single\<lparr>interruption := \<lambda>i. True\<rparr>"
  have c: "complete_snapshot ?E =
      Some [Metadata_item ex_metadata, OutPoint_item (ex_key 0), Coin_item (ex_coin [1])]"
    by (simp add: complete_snapshot_def ex_export_env_def ex_snapshot_env_def ex_single_def ex_tip_def
        ex_metadata_def snapshot_body_def)
  have j: "AbsPathJoin ?E = prefixed_by_datadir ''/data''" "AbsPathJoin ?E' = prefixed_by_datadir ''/data''"
    by (simp_all add: ex_export_env_def)
  have r: "ex_apart ?E 0 = (?E, ''utxo.dat'')" "ex_apart ?E' 0 = (?E', ''utxo.dat'')"
    by (simp_all add: ex_apart_def)
  have f: "final_path ?E ''utxo.dat'' = ''/data/utxo.dat''"
    "temp_path ?E ''utxo.dat'' = ''/data/utxo.dat.incomplete''"
    "final_path ?E' ''utxo.dat'' = ''/data/utxo.dat''"
    "temp_path ?E' ''utxo.dat'' = ''/data/utxo.dat.incomplete''"
    by (simp_all add: final_path_def temp_path_def ex_export_env_def prefixed_by_datadir_def
        is_absolute_def)
  note t = final_path_never_partial [OF j(1) r(1) ex_apart_undisturbed [OF j(1)] sound_empty_disk,
      where fs = Map.empty]
  note t' = final_path_never_partial [OF j(2) r(2) ex_apart_undisturbed [OF j(2)] sound_empty_disk,
      where fs = Map.empty and schedule = "[]"]
  have 1: "temp_path ?E ''utxo.dat'' \<noteq> final_path ?E ''utxo.dat''"
    using t [where schedule = "[]"] by simp
  have 2: "case dumptxoutset ?E Map.empty ''utxo.dat'' of
        (Inl e, effects) \<Rightarrow> False
      | (Inr r, effects) \<Rightarrow>
          (\<forall>k < length effects.
              fs_after Map.empty (take k effects) (final_path ?E ''utxo.dat'') = None)
          \<and> fs_after Map.empty effects (final_path ?E ''utxo.dat'')
              = Some [Metadata_item ex_metadata, OutPoint_item (ex_key 0), Coin_item (ex_coin [1])]"
    using t [where schedule = "[]", THEN conjunct2, THEN conjunct1]
    unfolding ex_export_run by (simp add: c f)
  have 3: "case dumptxoutset ?E' Map.empty ''utxo.dat'' of
        (Inl e, effects) \<Rightarrow>
          \<forall>k. fs_after Map.empty (take k effects) (final_path ?E' ''utxo.dat'') = None
      | (Inr r, effects) \<Rightarrow> False"
    using t' [THEN conjunct2, THEN conjunct1]
    unfolding ex_export_interrupted by (simp add: f)
  have e0: "file_at empty_disk ''/data/utxo.dat'' = None"
    by (simp add: file_at_def empty_disk_def)
  have 4: "file_at (fst (run_exports (ex_apart ?E)
         [0, 1, 0, 1, 0, 0, 0, 0, 0, 0, 0, 1, 0, 0, 0] (empty_disk, \<lambda>u. Waiting))) ''/data/utxo.dat'' = None"
    by (simp add: run_exports_Cons run_exports_Nil export_step_Waiting export_step_Running
        ex_apart_def ex_earlier_log ex_other_log listing_def empty_disk_def file_at_def write_at_def)
  have "file_at (fst (run_exports (ex_apart ?E)
         [0, 1, 0, 1, 0, 0, 0, 0, 0, 0, 0, 1, 0, 0, 0, 0] (empty_disk, \<lambda>u. Waiting))) ''/data/utxo.dat''
       = file_at empty_disk ''/data/utxo.dat''
     \<or> file_at (fst (run_exports (ex_apart ?E)
         [0, 1, 0, 1, 0, 0, 0, 0, 0, 0, 0, 1, 0, 0, 0, 0] (empty_disk, \<lambda>u. Waiting))) ''/data/utxo.dat''
       = map_option (map Some) (complete_snapshot ?E)"
    using t [where schedule = "[0, 1, 0, 1, 0, 0, 0, 0, 0, 0, 0, 1, 0, 0, 0, 0]",
        THEN conjunct2, THEN conjunct2]
    by (auto simp: f split: prod.splits)
  moreover have "file_at (fst (run_exports (ex_apart ?E)
         [0, 1, 0, 1, 0, 0, 0, 0, 0, 0, 0, 1, 0, 0, 0, 0] (empty_disk, \<lambda>u. Waiting))) ''/data/utxo.dat''
       \<noteq> None"
    by (simp add: run_exports_Cons run_exports_Nil export_step_Waiting export_step_Running
        ex_apart_def ex_earlier_log ex_other_log listing_def empty_disk_def file_at_def write_at_def)
  ultimately have 5: "file_at (fst (run_exports (ex_apart ?E)
         [0, 1, 0, 1, 0, 0, 0, 0, 0, 0, 0, 1, 0, 0, 0, 0] (empty_disk, \<lambda>u. Waiting))) ''/data/utxo.dat''
       = Some [Some (Metadata_item ex_metadata), Some (OutPoint_item (ex_key 0)),
               Some (Coin_item (ex_coin [1]))]"
    by (auto simp: c e0)
  show ?thesis
    using 1 2 3 4 5 by simp
qed

text \<open>
  The claim as stated fails when two exports to the same path overlap.  Both pass the
  check of the final path, and both open the same temporary file, the later one while
  the earlier has it open.  The earlier export, of a store of one coin, writes its
  snapshot, closes the file and renames it to the final path.  The later export, of the
  store without that coin, then writes its header into the file it has open, which is the
  file the final path now names, closes it, and its rename throws because the temporary
  path is gone: the final path is left with the header of one snapshot, which counts no
  coin, before the coin of the other.  Each thread runs its \<open>cs_main\<close> section without the
  other in between, and the outcome is the same when every write is delayed to the close
  of its file.
\<close>

theorem final_path_partial_counterexample:
  "final_path (fst (ex_same_path 0)) (snd (ex_same_path 0)) = ''/data/utxo.dat''
   \<and> final_path (fst (ex_same_path 1)) (snd (ex_same_path 1)) = ''/data/utxo.dat''
   \<and> complete_snapshot (fst (ex_same_path 0)) =
       Some [Metadata_item ex_metadata, OutPoint_item (ex_key 0), Coin_item (ex_coin [1])]
   \<and> complete_snapshot (fst (ex_same_path 1)) = Some [Metadata_item (ex_metadata\<lparr>m_coins_count := 0\<rparr>)]
   \<and> file_at (fst (run_exports ex_same_path [0, 1, 0, 1, 0, 0, 0, 0, 0, 0, 0, 0, 0, 0, 0]
         (empty_disk, \<lambda>t. Waiting))) ''/data/utxo.dat''
       = Some [Some (Metadata_item ex_metadata), Some (OutPoint_item (ex_key 0)),
               Some (Coin_item (ex_coin [1]))]
   \<and> file_at (fst (run_exports ex_same_path
         [0, 1, 0, 1, 0, 0, 0, 0, 0, 0, 0, 0, 0, 0, 0, 1, 1, 1, 1, 1, 1, 1, 1, 1]
         (empty_disk, \<lambda>t. Waiting))) ''/data/utxo.dat''
       = Some [Some (Metadata_item (ex_metadata\<lparr>m_coins_count := 0\<rparr>)), Some (OutPoint_item (ex_key 0)),
               Some (Coin_item (ex_coin [1]))]"
proof -
  have a: "final_path (fst (ex_same_path 0)) (snd (ex_same_path 0)) = ''/data/utxo.dat''"
    "final_path (fst (ex_same_path 1)) (snd (ex_same_path 1)) = ''/data/utxo.dat''"
    by (simp_all add: ex_same_path_def final_path_def ex_export_env_def ex_later_env_def
        prefixed_by_datadir_def is_absolute_def)
  have b: "complete_snapshot (fst (ex_same_path 0)) =
      Some [Metadata_item ex_metadata, OutPoint_item (ex_key 0), Coin_item (ex_coin [1])]"
    "complete_snapshot (fst (ex_same_path 1)) = Some [Metadata_item (ex_metadata\<lparr>m_coins_count := 0\<rparr>)]"
    by (simp_all add: ex_same_path_def complete_snapshot_def ex_export_env_def ex_later_env_def
        ex_snapshot_env_def ex_single_def ex_tip_def ex_metadata_def snapshot_body_def)
  have c: "file_at (fst (run_exports ex_same_path [0, 1, 0, 1, 0, 0, 0, 0, 0, 0, 0, 0, 0, 0, 0]
         (empty_disk, \<lambda>t. Waiting))) ''/data/utxo.dat''
       = Some [Some (Metadata_item ex_metadata), Some (OutPoint_item (ex_key 0)),
               Some (Coin_item (ex_coin [1]))]"
    by (simp add: run_exports_Cons run_exports_Nil export_step_Waiting export_step_Running
        ex_same_path_def ex_earlier_log ex_later_log listing_def empty_disk_def file_at_def write_at_def)
  have d: "file_at (fst (run_exports ex_same_path
         [0, 1, 0, 1, 0, 0, 0, 0, 0, 0, 0, 0, 0, 0, 0, 1, 1, 1, 1, 1, 1, 1, 1, 1]
         (empty_disk, \<lambda>t. Waiting))) ''/data/utxo.dat''
       = Some [Some (Metadata_item (ex_metadata\<lparr>m_coins_count := 0\<rparr>)), Some (OutPoint_item (ex_key 0)),
               Some (Coin_item (ex_coin [1]))]"
    by (simp add: run_exports_Cons run_exports_Nil export_step_Waiting export_step_Running
        ex_same_path_def ex_earlier_log ex_later_log listing_def empty_disk_def file_at_def write_at_def)
  show ?thesis
    using a b c d by simp
qed

section \<open>The count in the header and the records written\<close>

text \<open>
  C2 (as amended).  A successful export writes the header, whose count is the one the
  statistics gave, and then the key and the coin of every cursor record that decodes, so
  the number of records written is the number of those records.  Nothing compares the two
  numbers: the export succeeds whenever the destination is absent and no collaborator
  fails, whatever the statistics count.
\<close>

theorem snapshot_count_unchecked:
  "(dumptxoutset env fs arg = (Inr r, effects) \<longrightarrow>
      (\<exists>stats tip. utxo_stats env = Inr (Some stats)
         \<and> block_index env (hashBlock stats) = Some tip
         \<and> written_items effects =
             Metadata_item \<lparr>m_base_blockhash = block_hash tip, m_coins_count = coins_count stats,
                             m_nchaintx = nChainTx tip\<rparr>
             # snapshot_body (decodable (db_cursor env))
         \<and> records_written effects = length (decodable (db_cursor env))))
   \<and> (fs (final_path env arg) = None \<and> fopen_ok env \<and> node_found env \<and> rename_ok env
       \<and> utxo_stats env = Inr (Some stats') \<and> block_index env (hashBlock stats') = Some tip'
       \<and> (\<forall>j. \<not> interruption env j) \<and> (\<forall>k. \<not> write_fails env k) \<longrightarrow>
       (\<exists>r' effects'. dumptxoutset env fs arg = (Inr r', effects')))"
proof (intro conjI impI)
  assume "dumptxoutset env fs arg = (Inr r, effects)"
  from dumptxoutset_written [OF this]
  show "\<exists>stats tip. utxo_stats env = Inr (Some stats)
         \<and> block_index env (hashBlock stats) = Some tip
         \<and> written_items effects =
             Metadata_item \<lparr>m_base_blockhash = block_hash tip, m_coins_count = coins_count stats,
                             m_nchaintx = nChainTx tip\<rparr>
             # snapshot_body (decodable (db_cursor env))
         \<and> records_written effects = length (decodable (db_cursor env))"
    by (auto simp: records_written_def coin_items_body)
next
  assume "fs (final_path env arg) = None \<and> fopen_ok env \<and> node_found env \<and> rename_ok env
       \<and> utxo_stats env = Inr (Some stats') \<and> block_index env (hashBlock stats') = Some tip'
       \<and> (\<forall>j. \<not> interruption env j) \<and> (\<forall>k. \<not> write_fails env k)"
  then show "\<exists>r' effects'. dumptxoutset env fs arg = (Inr r', effects')"
    using dumptxoutset_succeeds [of fs env arg stats' tip'] by (simp add: final_path_def)
qed

theorem snapshot_count_unchecked_witness:
  "written_items (snd (dumptxoutset (ex_snapshot_env ex_one) Map.empty ''utxo.dat'')) =
     Metadata_item ex_metadata # snapshot_body (decodable ex_one)
   \<and> records_written (snd (dumptxoutset (ex_snapshot_env ex_one) Map.empty ''utxo.dat'')) = 1
   \<and> (\<exists>r' effects'. dumptxoutset (ex_snapshot_env ex_one) Map.empty ''utxo.dat'' = (Inr r', effects'))"
proof -
  obtain r effects where run:
    "dumptxoutset (ex_snapshot_env ex_one) Map.empty ''utxo.dat'' = (Inr r, effects)"
    by (simp add: ex_dump_run)
  have e: "utxo_stats (ex_snapshot_env ex_one) = Inr (Some \<lparr>hashBlock = replicate 32 1, coins_count = 5\<rparr>)"
    "block_index (ex_snapshot_env ex_one) h = Some ex_tip" "db_cursor (ex_snapshot_env ex_one) = ex_one"
    for h
    by (simp_all add: ex_snapshot_env_def)
  have d: "length (decodable ex_one) = 1"
    by (simp add: ex_one_def)
  show ?thesis
    using snapshot_count_unchecked [of "ex_snapshot_env ex_one" Map.empty "''utxo.dat''" r effects
        "\<lparr>hashBlock = replicate 32 1, coins_count = 5\<rparr>" ex_tip]
    by (auto simp: run e d ex_metadata_def ex_tip_def)
qed

text \<open>
  The claim as stated fails: the statistics count 5 coins, the cursor yields one record,
  and the export completes with a header count of 5 and one record written.
\<close>

theorem snapshot_count_counterexample:
  "dumptxoutset (ex_snapshot_env ex_single) Map.empty ''utxo.dat'' =
     (Inr \<lparr>coins_written = 5, base_hash = replicate 32 1, base_height = 10,
           dump_path = Some ''/data/utxo.dat''\<rparr>,
      [Fopen ''/data/utxo.dat.incomplete'',
       Lock_cs_main, ForceFlushStateToDisk, GetUTXOStats, Cursor, LookupBlockIndex, Unlock_cs_main,
       Fwrite ''/data/utxo.dat.incomplete''
         (Metadata_item \<lparr>m_base_blockhash = replicate 32 1, m_coins_count = 5, m_nchaintx = 20\<rparr>),
       Fwrite ''/data/utxo.dat.incomplete'' (OutPoint_item (ex_key 0)),
       Fwrite ''/data/utxo.dat.incomplete'' (Coin_item (ex_coin [1])),
       Fclose ''/data/utxo.dat.incomplete'',
       Rename ''/data/utxo.dat.incomplete'' ''/data/utxo.dat''])"
  by (simp add: dumptxoutset_def CreateUTXOSnapshot_def ex_snapshot_env_def ex_single_def ex_tip_def
      Let_def)

text \<open>
  C10.  In the streaming loop a record whose key or value does not decode is passed over:
  no error, no write, and the loop goes on with the next record; a loop that completes has
  written exactly the records that decode.  The \<open>coins_written\<close> of the reply is the count
  of the statistics, which were computed before the loop.
\<close>

theorem undecodable_skipped:
  "((key = None \<or> coin = None) \<and> \<not> (unat iter mod 5000 = 0 \<and> ip i) \<longrightarrow>
      write_coins ip fails tmp ((key, coin) # cursor) iter i w =
        write_coins ip fails tmp cursor (iter + 1) (Suc i) w)
   \<and> (write_coins ip fails tmp cursor iter i w = (None, writes) \<longrightarrow>
        writes = map (Fwrite tmp) (snapshot_body (decodable cursor)))
   \<and> (CreateUTXOSnapshot env afile = (Inr r, effects) \<longrightarrow>
        (\<exists>stats. utxo_stats env = Inr (Some stats) \<and> coins_written r = coins_count stats))"
proof (intro conjI impI)
  assume "(key = None \<or> coin = None) \<and> \<not> (unat iter mod 5000 = 0 \<and> ip i)"
  then show "write_coins ip fails tmp ((key, coin) # cursor) iter i w =
      write_coins ip fails tmp cursor (iter + 1) (Suc i) w"
    by (auto split: option.splits)
next
  assume "write_coins ip fails tmp cursor iter i w = (None, writes)"
  then show "writes = map (Fwrite tmp) (snapshot_body (decodable cursor))"
    by (rule write_coins_complete)
next
  assume "CreateUTXOSnapshot env afile = (Inr r, effects)"
  from CreateUTXOSnapshot_Inr [OF this]
  show "\<exists>stats. utxo_stats env = Inr (Some stats) \<and> coins_written r = coins_count stats"
    by auto
qed

theorem undecodable_skipped_witness:
  "write_coins (\<lambda>i. False) (\<lambda>w. False) ''f'' ((None, Some (ex_coin [2])) # cursor_of ex_recs) 0 0 1 =
     write_coins (\<lambda>i. False) (\<lambda>w. False) ''f'' (cursor_of ex_recs) 1 1 1
   \<and> snd (write_coins (\<lambda>i. False) (\<lambda>w. False) ''f'' ex_one 0 0 (Suc 0)) =
       map (Fwrite ''f'') (snapshot_body (decodable ex_one))
   \<and> coins_written (projr (fst (CreateUTXOSnapshot (ex_snapshot_env ex_one) (Some ''f'')))) = 5"
proof -
  obtain writes where w: "write_coins (\<lambda>i. False) (\<lambda>w. False) ''f'' ex_one 0 0 (Suc 0) = (None, writes)"
    by (simp add: ex_one_def)
  obtain r effects where c: "CreateUTXOSnapshot (ex_snapshot_env ex_one) (Some ''f'') = (Inr r, effects)"
    by (simp add: CreateUTXOSnapshot_def ex_snapshot_env_def ex_one_def Let_def)
  have a: "write_coins (\<lambda>i. False) (\<lambda>w. False) ''f'' ((None, Some (ex_coin [2])) # cursor_of ex_recs) 0 0 1 =
      write_coins (\<lambda>i. False) (\<lambda>w. False) ''f'' (cursor_of ex_recs) (0 + 1) (Suc 0) 1"
    using undecodable_skipped [where key = None and coin = "Some (ex_coin [2])" and iter = 0
        and ip = "\<lambda>i. False" and i = 0 and fails = "\<lambda>w. False" and tmp = "''f''"
        and cursor = "cursor_of ex_recs" and w = 1, THEN conjunct1]
    by simp
  have b: "writes = map (Fwrite ''f'') (snapshot_body (decodable ex_one))"
    using undecodable_skipped [where ip = "\<lambda>i. False" and fails = "\<lambda>w. False" and tmp = "''f''"
        and cursor = ex_one and iter = 0 and i = 0 and w = "Suc 0" and writes = writes,
        THEN conjunct2, THEN conjunct1] w
    by simp
  have d: "coins_written r = 5"
    using undecodable_skipped [where env = "ex_snapshot_env ex_one" and afile = "Some ''f''"
        and r = r and effects = effects, THEN conjunct2, THEN conjunct2] c
    by (simp add: ex_snapshot_env_def)
  show ?thesis
    using a b d by (simp add: w c)
qed

end
